theory Spec2Isabelle
  imports Main
begin

section \<open>Texts and characters\<close>

text \<open>
  A Python \<^verbatim>\<open>str\<close> is modelled as a \<^typ>\<open>string\<close>: each \<^typ>\<open>char\<close> stands for the
  code point of the same number (U+0000 to U+00FF). The character classes below are the
  ones Python's \<^verbatim>\<open>re\<close> module and \<^verbatim>\<open>str\<close> methods use on that range.
\<close>

definition nl :: char where
  "nl = CHR 0x0A"

text \<open>\<^verbatim>\<open>\s\<close> and \<^verbatim>\<open>str.strip()\<close>: the characters for which \<^verbatim>\<open>str.isspace()\<close> holds.\<close>

definition is_space :: "char \<Rightarrow> bool" where
  "is_space c = (let n = (of_char c :: nat) in
     (9 \<le> n \<and> n \<le> 13) \<or> (28 \<le> n \<and> n \<le> 32) \<or> n = 133 \<or> n = 160)"

text \<open>\<^verbatim>\<open>0-9\<close> inside a character class.\<close>

definition is_digit :: "char \<Rightarrow> bool" where
  "is_digit c = (let n = (of_char c :: nat) in 48 \<le> n \<and> n \<le> 57)"

text \<open>\<^verbatim>\<open>\w\<close> on a \<^verbatim>\<open>str\<close> pattern: alphanumeric characters and the underscore.\<close>

definition is_word :: "char \<Rightarrow> bool" where
  "is_word c = (let n = (of_char c :: nat) in
     (48 \<le> n \<and> n \<le> 57) \<or> (65 \<le> n \<and> n \<le> 90) \<or> n = 95 \<or> (97 \<le> n \<and> n \<le> 122) \<or>
     n = 170 \<or> n = 178 \<or> n = 179 \<or> n = 181 \<or> n = 185 \<or> n = 186 \<or>
     (188 \<le> n \<and> n \<le> 190) \<or> (192 \<le> n \<and> n \<le> 214) \<or> (216 \<le> n \<and> n \<le> 246) \<or>
     (248 \<le> n \<and> n \<le> 255))"


text \<open>\<^verbatim>\<open>s.strip()\<close>\<close>

definition strip :: "string \<Rightarrow> string" where
  "strip s = rev (dropWhile is_space (rev (dropWhile is_space s)))"

text \<open>\<^verbatim>\<open>s.split(',')\<close>: never empty, \<^verbatim>\<open>''.split(',') == ['']\<close>.\<close>

fun split_comma :: "string \<Rightarrow> string list" where
  "split_comma [] = [[]]"
| "split_comma (c # cs) =
     (if c = CHR '','' then [] # split_comma cs
      else (case split_comma cs of [] \<Rightarrow> [[c]] | x # xs \<Rightarrow> (c # x) # xs))"


text \<open>\<^verbatim>\<open>'\n'.join(xs)\<close>\<close>

fun join_nl :: "string list \<Rightarrow> string" where
  "join_nl [] = []"
| "join_nl [x] = x"
| "join_nl (x # y # ys) = x @ nl # join_nl (y # ys)"

section \<open>Regular expressions\<close>

text \<open>
  The patterns of the program use literals, character classes, greedy repetition of a
  class, capture groups, one optional group and the assertions \<^verbatim>\<open>^\<close>, \<^verbatim>\<open>$\<close> and
  \<^verbatim>\<open>\b\<close>. A pattern is the list of its atoms; \<^verbatim>\<open>C+\<close> is \<^verbatim>\<open>C\<close> followed by \<^verbatim>\<open>C*\<close>.
\<close>

datatype atom =
    Lit char
  | Cls "char \<Rightarrow> bool"
  | Star "char \<Rightarrow> bool"
  | Open nat
  | Close nat
  | Opt "atom list"
  | Bol
  | BolM
  | Eol
  | WordB

type_synonym groups = "nat \<Rightarrow> string option"

definition lits :: "string \<Rightarrow> atom list" where
  "lits s = map Lit s"

definition plus :: "(char \<Rightarrow> bool) \<Rightarrow> atom list" where
  "plus P = [Cls P, Star P]"

definition group :: "nat \<Rightarrow> atom list \<Rightarrow> atom list" where
  "group n as = Open n # as @ [Close n]"

text \<open>\<^verbatim>\<open>\b\<close>: exactly one of the characters before and after the position is a word character.\<close>

definition at_boundary :: "char option \<Rightarrow> string \<Rightarrow> bool" where
  "at_boundary p s =
     ((case p of None \<Rightarrow> False | Some c \<Rightarrow> is_word c) \<noteq> (case s of [] \<Rightarrow> False | c # _ \<Rightarrow> is_word c))"

text \<open>
  The backtracking matcher, anchored at the current position. Its arguments are the atoms
  still to match, the groups captured so far, the character before the position and the
  text from the position on; it returns the groups, the last character before the end of
  the match and the text after the match. A repetition first takes one more character and
  gives it back when the rest of the pattern fails; an optional part is tried before it is
  skipped. Between \<open>Open n\<close> and \<open>Close n\<close> group \<open>n\<close> holds the text from its start on.
\<close>

function rmatch :: "atom list \<Rightarrow> groups \<Rightarrow> char option \<Rightarrow> string \<Rightarrow> (groups \<times> char option \<times> string) option" where
  "rmatch [] g p s = Some (g, p, s)"
| "rmatch (Lit c # rs) g p s =
     (case s of [] \<Rightarrow> None | x # xs \<Rightarrow> if x = c then rmatch rs g (Some x) xs else None)"
| "rmatch (Cls P # rs) g p s =
     (case s of [] \<Rightarrow> None | x # xs \<Rightarrow> if P x then rmatch rs g (Some x) xs else None)"
| "rmatch (Star P # rs) g p s =
     (case s of [] \<Rightarrow> rmatch rs g p s
      | x # xs \<Rightarrow>
          if P x then (case rmatch (Star P # rs) g (Some x) xs of
                         Some r \<Rightarrow> Some r
                       | None \<Rightarrow> rmatch rs g p s)
          else rmatch rs g p s)"
| "rmatch (Open n # rs) g p s = rmatch rs (g(n := Some s)) p s"
| "rmatch (Close n # rs) g p s =
     rmatch rs (g(n := map_option (\<lambda>t. take (length t - length s) t) (g n))) p s"
| "rmatch (Opt as # rs) g p s =
     (case rmatch (as @ rs) g p s of Some r \<Rightarrow> Some r | None \<Rightarrow> rmatch rs g p s)"
| "rmatch (Bol # rs) g p s = (if p = None then rmatch rs g p s else None)"
| "rmatch (BolM # rs) g p s = (if p = None \<or> p = Some nl then rmatch rs g p s else None)"
| "rmatch (Eol # rs) g p s = (if s = [] \<or> s = [nl] then rmatch rs g p s else None)"
| "rmatch (WordB # rs) g p s = (if at_boundary p s then rmatch rs g p s else None)"
  by pat_completeness auto
termination
  by (relation "measure (\<lambda>(rs, g, p, s). size_list size rs + length s)") auto

definition no_groups :: groups where
  "no_groups = (\<lambda>n. None)"

text \<open>\<^verbatim>\<open>pattern.match(s)\<close>: a match at the start of the text.\<close>

definition re_match :: "atom list \<Rightarrow> string \<Rightarrow> groups option" where
  "re_match pat s = map_option fst (rmatch pat no_groups None s)"

text \<open>\<^verbatim>\<open>pattern.search(s)\<close>: the match at the first position that has one.\<close>

fun search_from :: "atom list \<Rightarrow> char option \<Rightarrow> string \<Rightarrow> groups option" where
  "search_from pat p s =
     (case rmatch pat no_groups p s of
        Some r \<Rightarrow> Some (fst r)
      | None \<Rightarrow> (case s of [] \<Rightarrow> None | x # xs \<Rightarrow> search_from pat (Some x) xs))"

definition re_search :: "atom list \<Rightarrow> string \<Rightarrow> groups option" where
  "re_search pat s = search_from pat None s"

text \<open>
  \<^verbatim>\<open>pattern.sub(repl, s)\<close>: every match found from left to right is replaced, the next
  search starting where the match ended. After an empty match the next character is copied.
  (With greedy atoms only, a pattern whose first match at a position is empty has no other
  match there, so nothing is lost by not trying the position again.)
\<close>

function sub_from :: "atom list \<Rightarrow> (groups \<Rightarrow> string) \<Rightarrow> char option \<Rightarrow> string \<Rightarrow> string" where
  "sub_from pat repl p s =
     (case rmatch pat no_groups p s of
        Some (g, p', s') \<Rightarrow>
          if length s' < length s then repl g @ sub_from pat repl p' s'
          else repl g @ (case s of [] \<Rightarrow> [] | x # xs \<Rightarrow> x # sub_from pat repl (Some x) xs)
      | None \<Rightarrow> (case s of [] \<Rightarrow> [] | x # xs \<Rightarrow> x # sub_from pat repl (Some x) xs))"
  by pat_completeness auto
termination
  by (relation "measure (\<lambda>(pat, repl, p, s). length s)") auto

definition re_sub :: "atom list \<Rightarrow> (groups \<Rightarrow> string) \<Rightarrow> string \<Rightarrow> string" where
  "re_sub pat repl s = sub_from pat repl None s"

text \<open>\<^verbatim>\<open>m.group(n)\<close> of a group that took part in the match.\<close>

definition grp :: "groups \<Rightarrow> nat \<Rightarrow> string" where
  "grp g n = (case g n of None \<Rightarrow> [] | Some t \<Rightarrow> t)"

section \<open>Gate lowering\<close>

definition not_rparen :: "char \<Rightarrow> bool" where
  "not_rparen c = (c \<noteq> CHR '')'')"

text \<open>The class \<^verbatim>\<open>[\w\[\]0-9]\<close> of qubit references.\<close>

definition is_qref :: "char \<Rightarrow> bool" where
  "is_qref c = (is_word c \<or> c = CHR ''['' \<or> c = CHR '']'' \<or> is_digit c)"

text \<open>\<^verbatim>\<open>cp\(([^)]+)\)\s+([\w\[\]0-9]+)\s*,\s*([\w\[\]0-9]+)\s*;\<close>\<close>

definition cp_pattern :: "atom list" where
  "cp_pattern = lits ''cp('' @ group 1 (plus not_rparen) @ lits '')'' @ plus is_space @
     group 2 (plus is_qref) @ [Star is_space] @ lits '','' @ [Star is_space] @
     group 3 (plus is_qref) @ [Star is_space] @ lits '';''"

definition cp_sub :: "groups \<Rightarrow> string" where
  "cp_sub m = (let theta = grp m 1; ctrl = grp m 2; tgt = grp m 3;
       half = ''(('' @ theta @ '')/2)''
     in join_nl [''u(0,0,'' @ half @ '') '' @ tgt @ '';'',
                 ''cx '' @ ctrl @ '','' @ tgt @ '';'',
                 ''u(0,0,-'' @ half @ '') '' @ tgt @ '';'',
                 ''cx '' @ ctrl @ '','' @ tgt @ '';''])"

definition cp_to_native :: "string \<Rightarrow> string" where
  "cp_to_native line =
     (if re_search cp_pattern line = None then line else re_sub cp_pattern cp_sub line)"

text \<open>\<^verbatim>\<open>p\(([^)]+)\)\s+([\w\[\]0-9]+)\s*;\<close>\<close>

definition p_pattern :: "atom list" where
  "p_pattern = lits ''p('' @ group 1 (plus not_rparen) @ lits '')'' @ plus is_space @
     group 2 (plus is_qref) @ [Star is_space] @ lits '';''"

definition p_sub :: "groups \<Rightarrow> string" where
  "p_sub m = (let theta = grp m 1; tgt = grp m 2 in ''u(0,0,'' @ theta @ '') '' @ tgt @ '';'')"

definition p_to_native :: "string \<Rightarrow> string" where
  "p_to_native line =
     (if re_search p_pattern line = None then line else re_sub p_pattern p_sub line)"

text \<open>\<^verbatim>\<open>re.sub\<close> of a two-character pattern by a fixed text without backslash.\<close>

definition sub_lit :: "string \<Rightarrow> string \<Rightarrow> string \<Rightarrow> string" where
  "sub_lit pat rep line = re_sub (lits pat) (\<lambda>m. rep) line"

definition convert_line :: "string \<Rightarrow> string" where
  "convert_line line0 =
     (let line = cp_to_native line0;
          line = p_to_native line;
          line = sub_lit ''++'' ''+'' line;
          line = sub_lit ''-+'' ''-'' line;
          line = sub_lit ''+-'' ''-'' line;
          line = sub_lit ''--'' ''-'' line
      in line)"

section \<open>Parsing the gate definitions\<close>

record gate_def =
  params :: "string list"
  qubits :: "string list"
  body :: "string list"

type_synonym gate_defs = "string \<rightharpoonup> gate_def"


text \<open>The optional group \<^verbatim>\<open>(\([^)]*\))?\<close>, with its group number.\<close>

definition opt_args :: "nat \<Rightarrow> atom" where
  "opt_args n = Opt (group n (lits ''('' @ [Star not_rparen] @ lits '')''))"


text \<open>\<^verbatim>\<open>xs[1:-1]\<close>\<close>

definition inner :: "'a list \<Rightarrow> 'a list" where
  "inner xs = butlast (tl xs)"







section \<open>Removing the definition blocks\<close>




section \<open>Expanding the calls of defined gates\<close>

datatype error =
    Unpack_error
  | Template_error

text \<open>The class \<^verbatim>\<open>[\w\[\]0-9_,\s]\<close> of an actual qubit list.\<close>

definition is_arg :: "char \<Rightarrow> bool" where
  "is_arg c = (is_word c \<or> c = CHR ''['' \<or> c = CHR '']'' \<or> is_digit c \<or> c = CHR ''_'' \<or>
     c = CHR '','' \<or> is_space c)"

text \<open>\<^verbatim>\<open>^\s*(\w+)\s*(\([^)]*\))?\s*([\w\[\]0-9_,\s]+);\s*$\<close>\<close>

definition call_pat :: "atom list" where
  "call_pat = [Bol, Star is_space] @ group 1 (plus is_word) @
     [Star is_space, opt_args 2, Star is_space] @ group 3 (plus is_arg) @ lits '';'' @
     [Star is_space, Eol]"

text \<open>\<^verbatim>\<open>dict(pairs)\<close>: a key keeps the place of its first pair and the value of its last.\<close>

fun dict_set :: "'k \<Rightarrow> 'v \<Rightarrow> ('k \<times> 'v) list \<Rightarrow> ('k \<times> 'v) list" where
  "dict_set k v [] = [(k, v)]"
| "dict_set k v (e # es) = (if fst e = k then (k, v) # es else e # dict_set k v es)"

definition dict_of :: "('k \<times> 'v) list \<Rightarrow> ('k \<times> 'v) list" where
  "dict_of kvs = foldl (\<lambda>d (k, v). dict_set k v d) [] kvs"

text \<open>
  \<^verbatim>\<open>re.sub(rf'\b{re.escape(f)}\b', a, line)\<close>. Python reads a replacement text with a
  backslash as a template and raises on an unknown escape or a group reference; the
  model does not interpret templates and stops with \<open>Template_error\<close> on every backslash.
\<close>

definition sub_word :: "string \<Rightarrow> string \<Rightarrow> string \<Rightarrow> error + string" where
  "sub_word f a line =
     (if CHR 0x5C \<in> set a then Inl Template_error
      else Inr (re_sub ([WordB] @ lits f @ [WordB]) (\<lambda>m. a) line))"

text \<open>The loop over the items of a substitution map, one symbol after the other.\<close>

fun subst_map :: "(string \<times> string) list \<Rightarrow> string \<Rightarrow> error + string" where
  "subst_map [] line = Inr line"
| "subst_map ((f, a) # fas) line =
     (case sub_word f a line of Inl e \<Rightarrow> Inl e | Inr line' \<Rightarrow> subst_map fas line')"

text \<open>The loop over the body of the definition: parameters, then qubits, then lowering.\<close>

fun expand_body :: "(string \<times> string) list \<Rightarrow> (string \<times> string) list \<Rightarrow> string list \<Rightarrow> error + string list" where
  "expand_body p_map q_map [] = Inr []"
| "expand_body p_map q_map (b # bs) =
     (case subst_map p_map b of
        Inl e \<Rightarrow> Inl e
      | Inr line1 \<Rightarrow>
          (case subst_map q_map line1 of
             Inl e \<Rightarrow> Inl e
           | Inr line2 \<Rightarrow>
               (case expand_body p_map q_map bs of
                  Inl e \<Rightarrow> Inl e
                | Inr out \<Rightarrow> Inr (convert_line line2 # out))))"

text \<open>The expansion of one matched call \<open>m\<close> of the definition \<open>gdef\<close>.\<close>

definition expand_call :: "gate_def \<Rightarrow> groups \<Rightarrow> error + string list" where
  "expand_call gdef m =
     (let arg_str = (case m 2 of None \<Rightarrow> [] | Some t \<Rightarrow> t);
          qub_str = grp m 3;
          formal_p = params gdef;
          actual_p = (if arg_str \<noteq> [] then map strip (split_comma (inner arg_str)) else []);
          p_map = dict_of (zip formal_p actual_p);
          formal_q = qubits gdef;
          actual_q = map strip (split_comma qub_str);
          q_map = dict_of (zip formal_q actual_q)
      in expand_body p_map q_map (body gdef))"

text \<open>The definition a line calls: the line matches \<open>call_pat\<close> and its first group is a
  key of the definitions.\<close>

definition called :: "gate_defs \<Rightarrow> string \<Rightarrow> (gate_def \<times> groups) option" where
  "called defs ln =
     (case re_match call_pat ln of
        None \<Rightarrow> None
      | Some m \<Rightarrow> (case defs (grp m 1) of None \<Rightarrow> None | Some gdef \<Rightarrow> Some (gdef, m)))"

text \<open>What one pass appends for one line, and whether the line was expanded.\<close>

definition expand_line :: "gate_defs \<Rightarrow> string \<Rightarrow> error + (string list \<times> bool)" where
  "expand_line defs ln =
     (case called defs ln of
        None \<Rightarrow> Inr ([convert_line ln], False)
      | Some (gdef, m) \<Rightarrow>
          (case expand_call gdef m of Inl e \<Rightarrow> Inl e | Inr out \<Rightarrow> Inr (out, True)))"

fun expand_once :: "gate_defs \<Rightarrow> string list \<Rightarrow> error + (string list \<times> bool)" where
  "expand_once defs [] = Inr ([], False)"
| "expand_once defs (ln # lns) =
     (case expand_line defs ln of
        Inl e \<Rightarrow> Inl e
      | Inr (out1, changed1) \<Rightarrow>
          (case expand_once defs lns of
             Inl e \<Rightarrow> Inl e
           | Inr (out, changed) \<Rightarrow> Inr (out1 @ out, changed1 \<or> changed)))"


section \<open>The output\<close>



section \<open>Properties of the matcher\<close>

declare rmatch.simps(4) [simp del]

lemma rmatch_Star_Nil [simp]: "rmatch (Star P # rs) g p [] = rmatch rs g p []"
  by (simp add: rmatch.simps(4))

lemma rmatch_Star_Cons:
  "rmatch (Star P # rs) g p (x # xs) =
     (if P x then (case rmatch (Star P # rs) g (Some x) xs of
                         Some r \<Rightarrow> Some r
                       | None \<Rightarrow> rmatch rs g p (x # xs))
      else rmatch rs g p (x # xs))"
  by (simp add: rmatch.simps(4))

declare search_from.simps [simp del] sub_from.simps [simp del]

definition lastc :: "char option \<Rightarrow> string \<Rightarrow> char option" where
  "lastc p xs = (if xs = [] then p else Some (last xs))"

lemma lastc_simps [simp]: "lastc p [] = p" "lastc p (x # xs) = lastc (Some x) xs"
  by (auto simp: lastc_def)

lemma lastc_append [simp]: "lastc p (xs @ ys) = lastc (lastc p xs) ys"
  by (auto simp: lastc_def)

lemma rmatch_lits: "rmatch (lits xs @ rs) g p (xs @ s) = rmatch rs g (lastc p xs) s"
  by (induction xs arbitrary: p) (auto simp: lits_def)

definition rejects :: "(char \<Rightarrow> bool) \<Rightarrow> atom list \<Rightarrow> bool" where
  "rejects P rs = (\<forall>g p x xs. P x \<longrightarrow> rmatch rs g p (x # xs) = None)"

lemma rejects_Lit: "\<not> P c \<Longrightarrow> rejects P (Lit c # rs)"
  by (auto simp: rejects_def)

lemma rejects_Cls: "(\<And>x. P x \<Longrightarrow> \<not> Q x) \<Longrightarrow> rejects P (Cls Q # rs)"
  by (auto simp: rejects_def)

lemma rejects_Star: "(\<And>x. P x \<Longrightarrow> \<not> Q x) \<Longrightarrow> rejects P rs \<Longrightarrow> rejects P (Star Q # rs)"
  by (auto simp: rejects_def rmatch_Star_Cons)

lemma rejects_Open: "rejects P rs \<Longrightarrow> rejects P (Open n # rs)"
  by (auto simp: rejects_def)

lemma rejects_Close: "rejects P rs \<Longrightarrow> rejects P (Close n # rs)"
  by (auto simp: rejects_def)

lemma rejects_plus: "(\<And>x. P x \<Longrightarrow> \<not> Q x) \<Longrightarrow> rejects P (plus Q @ rs)"
  by (auto simp: rejects_def plus_def)

lemma star_det:
  assumes "rejects P rs"
  shows "rmatch (Star P # rs) g p s = rmatch rs g (lastc p (takeWhile P s)) (dropWhile P s)"
proof (induction s arbitrary: p)
  case Nil
  show ?case by simp
next
  case (Cons x xs)
  show ?case
  proof (cases "P x")
    case True
    have "rmatch rs g p (x # xs) = None"
      using assms True by (simp add: rejects_def)
    then have "rmatch (Star P # rs) g p (x # xs) = rmatch (Star P # rs) g (Some x) xs"
      using True by (simp add: rmatch_Star_Cons split: option.splits)
    then show ?thesis
      using True Cons.IH [of "Some x"] by simp
  next
    case False
    then show ?thesis by (simp add: rmatch_Star_Cons)
  qed
qed

lemma plus_det:
  assumes "rejects P rs"
  shows "rmatch (plus P @ rs) g p s =
    (if takeWhile P s = [] then None
     else rmatch rs g (lastc p (takeWhile P s)) (dropWhile P s))"
proof (cases s)
  case Nil
  then show ?thesis by (simp add: plus_def)
next
  case (Cons x xs)
  then show ?thesis
    by (simp add: plus_def star_det [OF assms])
qed

lemma take_dropWhile [simp]: "take (length s - length (dropWhile P s)) s = takeWhile P s"
  by (induction s) (auto simp: Suc_diff_le length_dropWhile_le)

lemma space_not_qref: "is_space x \<Longrightarrow> \<not> is_qref x"
  by (auto simp: is_space_def is_qref_def is_word_def is_digit_def Let_def)

lemma qref_not_space: "is_qref x \<Longrightarrow> \<not> is_space x"
  using space_not_qref by blast

lemma qref_chars [simp]:
  "\<not> is_qref CHR '';''" "\<not> is_qref CHR '',''" "\<not> is_qref CHR ''(''" "\<not> is_qref CHR '')''"
  "\<not> is_qref CHR '' ''" "\<not> is_qref CHR ''/''" "\<not> is_qref nl"
  by (simp_all add: is_qref_def is_word_def is_digit_def nl_def)

lemma space_chars [simp]:
  "is_space CHR '' ''" "is_space nl" "\<not> is_space CHR '';''" "\<not> is_space CHR '',''"
  "\<not> is_space CHR ''(''" "\<not> is_space CHR '')''" "\<not> is_space CHR ''/''"
  by (simp_all add: is_space_def nl_def)


subsection \<open>The patterns of the two gates\<close>

lemma group_plus_det:
  assumes "rejects P rs"
  shows "rmatch (group n (plus P) @ rs) g p s =
    (if takeWhile P s = [] then None
     else rmatch rs (g(n := Some (takeWhile P s))) (lastc p (takeWhile P s)) (dropWhile P s))"
proof -
  have "rejects P (Close n # rs)"
    using assms by (rule rejects_Close)
  then have "rmatch (plus P @ Close n # rs) g' p s =
    (if takeWhile P s = [] then None
     else rmatch (Close n # rs) g' (lastc p (takeWhile P s)) (dropWhile P s))" for g'
    by (rule plus_det)
  then show ?thesis
    by (simp add: group_def)
qed

lemma rejects_group_plus: "(\<And>x. P x \<Longrightarrow> \<not> Q x) \<Longrightarrow> rejects P (group n (plus Q) @ rs)"
  by (simp add: group_def rejects_Open rejects_plus)

lemma rmatch_Lit_Nil [simp]: "rmatch (Lit c # rs) g p [] = None"
  by simp

lemma rmatch_Lit_Cons [simp]:
  "rmatch (Lit c # rs) g p (x # xs) = (if x = c then rmatch rs g (Some x) xs else None)"
  by simp

declare rmatch.simps(2) [simp del]

text \<open>tail: qubit reference, blanks, terminator\<close>

definition qref_end :: "nat \<Rightarrow> char \<Rightarrow> atom list" where
  "qref_end n c = group n (plus is_qref) @ [Star is_space] @ lits [c]"

lemma qref_end_match:
  assumes "\<not> is_space c" "\<not> is_qref c"
  shows "rmatch (qref_end n c @ rs) g p s =
    (if takeWhile is_qref s = [] then None
     else (case dropWhile is_space (dropWhile is_qref s) of
             [] \<Rightarrow> None
           | d # t \<Rightarrow> if d = c then rmatch rs (g(n := Some (takeWhile is_qref s))) (Some d) t else None))"
proof -
  have r1: "rejects is_space (Lit c # rs)"
    using assms by (simp add: rejects_Lit)
  have r2: "rejects is_qref (Star is_space # Lit c # rs)"
    using assms by (simp add: rejects_Lit rejects_Star qref_not_space)
  have "rmatch (Star is_space # Lit c # rs) g' p' s' =
      (case dropWhile is_space s' of
         [] \<Rightarrow> None
       | d # t \<Rightarrow> if d = c then rmatch rs g' (Some d) t else None)" for g' p' s'
    by (simp add: star_det [OF r1] rmatch.simps(2))
  then show ?thesis
    by (simp add: qref_end_def lits_def group_plus_det [OF r2])
qed

lemma p_pattern_alt: "p_pattern = lits ''p('' @ group 1 (plus not_rparen) @ lits '')'' @ plus is_space @ qref_end 2 CHR '';''"
  by (simp add: p_pattern_def qref_end_def)

lemma cp_pattern_alt: "cp_pattern = lits ''cp('' @ group 1 (plus not_rparen) @ lits '')'' @ plus is_space @
    qref_end 2 CHR '','' @ [Star is_space] @ qref_end 3 CHR '';''"
  by (simp add: cp_pattern_def qref_end_def)

definition p_parse :: "groups \<Rightarrow> string \<Rightarrow> (groups \<times> char option \<times> string) option" where
  "p_parse g s1 =
     (if takeWhile not_rparen s1 = [] then None
      else (case dropWhile not_rparen s1 of
          [] \<Rightarrow> None
        | c # s3 \<Rightarrow>
            if takeWhile is_space s3 = [] \<or> takeWhile is_qref (dropWhile is_space s3) = [] then None
            else (case dropWhile is_space (dropWhile is_qref (dropWhile is_space s3)) of
                [] \<Rightarrow> None
              | d # s6 \<Rightarrow>
                  if d = CHR '';''
                  then Some (g(1 := Some (takeWhile not_rparen s1),
                               2 := Some (takeWhile is_qref (dropWhile is_space s3))), Some d, s6)
                  else None)))"

lemma dropWhile_not_rparen_Cons: "dropWhile not_rparen s = c # t \<Longrightarrow> c = CHR '')''"
  using hd_dropWhile [of not_rparen s] by (auto simp: not_rparen_def)

lemma qref_end_last:
  assumes "\<not> is_space c" "\<not> is_qref c"
  shows "rmatch (qref_end n c) g p s =
    (if takeWhile is_qref s = [] then None
     else (case dropWhile is_space (dropWhile is_qref s) of
             [] \<Rightarrow> None
           | d # t \<Rightarrow> if d = c then Some (g(n := Some (takeWhile is_qref s)), Some d, t) else None))"
  using qref_end_match [OF assms, of n "[]" g p s]
  by (simp del: dropWhile_eq_Nil_conv split: list.split)

lemma rejects_qref_end: "rejects is_space (qref_end n c @ rs)"
  by (simp add: qref_end_def rejects_group_plus space_not_qref)

lemma rejects_qref_end_last: "rejects is_space (qref_end n c)"
  using rejects_qref_end [of n c "[]"] by simp

lemma p_tail:
  "rmatch (group 1 (plus not_rparen) @ lits '')'' @ plus is_space @ qref_end 2 CHR '';'') g p s1 = p_parse g s1"
proof -
  have r1: "rejects not_rparen (lits '')'' @ plus is_space @ qref_end 2 CHR '';'')"
    by (simp add: lits_def rejects_Lit not_rparen_def)
  have sp: "rmatch (plus is_space @ qref_end 2 CHR '';'') g' p' s' =
      (if takeWhile is_space s' = [] then None
       else rmatch (qref_end 2 CHR '';'') g' (lastc p' (takeWhile is_space s')) (dropWhile is_space s'))"
    for g' p' s'
    by (rule plus_det [OF rejects_qref_end_last])
  show ?thesis
  proof (cases "dropWhile not_rparen s1")
    case Nil
    then show ?thesis
      by (simp only: group_plus_det [OF r1] p_parse_def list.case if_cancel)
        (simp add: lits_def)
  next
    case (Cons c s3)
    then have c: "c = CHR '')''"
      by (rule dropWhile_not_rparen_Cons)
    show ?thesis
      unfolding group_plus_det [OF r1] p_parse_def Cons
      by (simp add: c lits_def sp qref_end_last del: dropWhile_eq_Nil_conv split: list.split)
  qed
qed

lemma p_pattern_match:
  "rmatch p_pattern g p s =
     (case s of [] \<Rightarrow> None
      | a # s0 \<Rightarrow> (case s0 of [] \<Rightarrow> None
         | b # s1 \<Rightarrow> if a = CHR ''p'' \<and> b = CHR ''('' then p_parse g s1 else None))"
  unfolding p_pattern_alt
  by (cases s; cases "tl s") (auto simp: lits_def p_tail [unfolded lits_def, simplified])


definition cp_parse :: "groups \<Rightarrow> string \<Rightarrow> (groups \<times> char option \<times> string) option" where
  "cp_parse g s1 =
     (if takeWhile not_rparen s1 = [] then None
      else (case dropWhile not_rparen s1 of
          [] \<Rightarrow> None
        | c # s3 \<Rightarrow>
            if takeWhile is_space s3 = [] \<or> takeWhile is_qref (dropWhile is_space s3) = [] then None
            else (case dropWhile is_space (dropWhile is_qref (dropWhile is_space s3)) of
                [] \<Rightarrow> None
              | d # s6 \<Rightarrow>
                  if d \<noteq> CHR '','' \<or> takeWhile is_qref (dropWhile is_space s6) = [] then None
                  else (case dropWhile is_space (dropWhile is_qref (dropWhile is_space s6)) of
                      [] \<Rightarrow> None
                    | e # s9 \<Rightarrow>
                        if e = CHR '';''
                        then Some (g(1 := Some (takeWhile not_rparen s1),
                                     2 := Some (takeWhile is_qref (dropWhile is_space s3)),
                                     3 := Some (takeWhile is_qref (dropWhile is_space s6))), Some e, s9)
                        else None))))"

lemma cp_tail:
  "rmatch (group 1 (plus not_rparen) @ lits '')'' @ plus is_space @
      qref_end 2 CHR '','' @ Star is_space # qref_end 3 CHR '';'') g p s1 = cp_parse g s1"
proof -
  let ?rest = "Star is_space # qref_end 3 CHR '';''"
  have r1: "rejects not_rparen (lits '')'' @ plus is_space @ qref_end 2 CHR '','' @ ?rest)"
    by (simp add: lits_def rejects_Lit not_rparen_def)
  have sp: "rmatch (plus is_space @ qref_end 2 CHR '','' @ ?rest) g' p' s' =
      (if takeWhile is_space s' = [] then None
       else rmatch (qref_end 2 CHR '','' @ ?rest) g' (lastc p' (takeWhile is_space s')) (dropWhile is_space s'))"
    for g' p' s'
    by (rule plus_det [OF rejects_qref_end])
  have st: "rmatch (Star is_space # qref_end 3 CHR '';'') g' p' s' =
      rmatch (qref_end 3 CHR '';'') g' (lastc p' (takeWhile is_space s')) (dropWhile is_space s')"
    for g' p' s'
    by (rule star_det [OF rejects_qref_end_last])
  show ?thesis
  proof (cases "dropWhile not_rparen s1")
    case Nil
    then show ?thesis
      by (simp only: group_plus_det [OF r1] cp_parse_def list.case if_cancel)
        (simp add: lits_def)
  next
    case (Cons c s3)
    then have c: "c = CHR '')''"
      by (rule dropWhile_not_rparen_Cons)
    show ?thesis
      unfolding group_plus_det [OF r1] cp_parse_def Cons
      by (simp add: c lits_def sp st qref_end_match qref_end_last del: dropWhile_eq_Nil_conv
          split: list.split)
  qed
qed

lemma cp_pattern_match:
  "rmatch cp_pattern g p s =
     (case s of [] \<Rightarrow> None
      | a # s0 \<Rightarrow> (case s0 of [] \<Rightarrow> None
         | b # s1 \<Rightarrow> (case s1 of [] \<Rightarrow> None
           | c # s2 \<Rightarrow> if a = CHR ''c'' \<and> b = CHR ''p'' \<and> c = CHR ''('' then cp_parse g s2 else None)))"
  unfolding cp_pattern_alt
  by (cases s; cases "tl s"; cases "tl (tl s)") (auto simp: lits_def cp_tail [unfolded lits_def, simplified])


subsection \<open>Searching and replacing\<close>

lemma search_from_None_Nil: "rmatch pat no_groups p [] = None \<Longrightarrow> search_from pat p [] = None"
  by (simp add: search_from.simps)

lemma sub_from_None_Nil: "rmatch pat no_groups p [] = None \<Longrightarrow> sub_from pat repl p [] = []"
  by (simp add: sub_from.simps)

lemma search_skip:
  "rmatch pat no_groups p (x # s) = None \<Longrightarrow> search_from pat p (x # s) = search_from pat (Some x) s"
  by (simp add: search_from.simps [of pat p "x # s"])

lemma sub_skip:
  "rmatch pat no_groups p (x # s) = None \<Longrightarrow> sub_from pat repl p (x # s) = x # sub_from pat repl (Some x) s"
  by (simp add: sub_from.simps [of pat repl p "x # s"])

definition quiet :: "atom list \<Rightarrow> string \<Rightarrow> string \<Rightarrow> bool" where
  "quiet pat u w = (\<forall>p u1 u2. u = u1 @ u2 \<longrightarrow> u2 \<noteq> [] \<longrightarrow> rmatch pat no_groups p (u2 @ w) = None)"

lemma quiet_Nil [simp]: "quiet pat [] w"
  by (simp add: quiet_def)

lemma quiet_Cons:
  "quiet pat (x # u) w = ((\<forall>p. rmatch pat no_groups p (x # u @ w) = None) \<and> quiet pat u w)"
proof
  assume q: "quiet pat (x # u) w"
  have "rmatch pat no_groups p (x # u @ w) = None" for p
    using q [unfolded quiet_def, rule_format, of "[]" "x # u" p] by simp
  moreover have "quiet pat u w"
    unfolding quiet_def
  proof (intro allI impI)
    fix p u1 u2
    assume "u = u1 @ u2" "u2 \<noteq> []"
    then show "rmatch pat no_groups p (u2 @ w) = None"
      using q [unfolded quiet_def, rule_format, of "x # u1" u2 p] by simp
  qed
  ultimately show "(\<forall>p. rmatch pat no_groups p (x # u @ w) = None) \<and> quiet pat u w"
    by simp
next
  assume a: "(\<forall>p. rmatch pat no_groups p (x # u @ w) = None) \<and> quiet pat u w"
  show "quiet pat (x # u) w"
    unfolding quiet_def
  proof (intro allI impI)
    fix p u1 u2
    assume e: "x # u = u1 @ u2" and n: "u2 \<noteq> []"
    show "rmatch pat no_groups p (u2 @ w) = None"
    proof (cases u1)
      case Nil
      then show ?thesis using a e by auto
    next
      case (Cons y u1')
      then have "u = u1' @ u2" using e by simp
      then show ?thesis
        using a n by (auto simp: quiet_def)
    qed
  qed
qed

lemma quiet_append: "quiet pat u (v @ w) \<Longrightarrow> quiet pat v w \<Longrightarrow> quiet pat (u @ v) w"
  by (induction u) (auto simp: quiet_Cons)

lemma quiet_search: "quiet pat u w \<Longrightarrow> search_from pat p (u @ w) = search_from pat (lastc p u) w"
  by (induction u arbitrary: p) (auto simp: quiet_Cons search_skip)

lemma quiet_sub: "quiet pat u w \<Longrightarrow> sub_from pat repl p (u @ w) = u @ sub_from pat repl (lastc p u) w"
  by (induction u arbitrary: p) (auto simp: quiet_Cons sub_skip)

lemma quiet_all_search:
  "quiet pat s [] \<Longrightarrow> (\<And>p. rmatch pat no_groups p [] = None) \<Longrightarrow> search_from pat p s = None"
  using quiet_search [of pat s "[]" p] by (simp add: search_from_None_Nil)

lemma quiet_all_sub:
  "quiet pat s [] \<Longrightarrow> (\<And>p. rmatch pat no_groups p [] = None) \<Longrightarrow> sub_from pat repl p s = s"
  using quiet_sub [of pat s "[]" repl p] by (simp add: sub_from_None_Nil)

text \<open>A match that ends the text: the whole text is replaced.\<close>

lemma sub_whole:
  "rmatch pat no_groups p s = Some (g, p', []) \<Longrightarrow> s \<noteq> [] \<Longrightarrow>
   rmatch pat no_groups p' [] = None \<Longrightarrow> sub_from pat repl p s = repl g"
  by (simp add: sub_from.simps [of pat repl p s] sub_from_None_Nil)

lemma search_hit: "rmatch pat no_groups p s = Some r \<Longrightarrow> search_from pat p s = Some (fst r)"
  by (simp add: search_from.simps [of pat p s])


subsection \<open>Adjacent signs\<close>

fun adjacent :: "(char \<Rightarrow> char \<Rightarrow> bool) \<Rightarrow> string \<Rightarrow> bool" where
  "adjacent Q (x # y # s) = (Q x y \<or> adjacent Q (y # s))"
| "adjacent Q s = False"

definition is_sign :: "char \<Rightarrow> bool" where
  "is_sign c = (c = CHR ''+'' \<or> c = CHR ''-'')"

definition sign_pair :: "string \<Rightarrow> bool" where
  "sign_pair s = adjacent (\<lambda>x y. is_sign x \<and> is_sign y) s"

definition norm_signs :: "string \<Rightarrow> string" where
  "norm_signs line = sub_lit ''--'' ''-'' (sub_lit ''+-'' ''-'' (sub_lit ''-+'' ''-'' (sub_lit ''++'' ''+'' line)))"

lemma convert_line_alt: "convert_line line = norm_signs (p_to_native (cp_to_native line))"
  by (simp add: convert_line_def norm_signs_def Let_def)

lemma adjacent_append:
  "adjacent Q (u @ v) = (adjacent Q u \<or> adjacent Q v \<or> (u \<noteq> [] \<and> v \<noteq> [] \<and> Q (last u) (hd v)))"
proof (induction u)
  case Nil
  show ?case by simp
next
  case (Cons x u)
  show ?case
  proof (cases u)
    case Nil
    then show ?thesis by (cases v) auto
  next
    case (Cons y u')
    then show ?thesis using Cons.IH by auto
  qed
qed

lemma rmatch_lits2:
  "rmatch (lits [a, b]) g p s =
     (case s of [] \<Rightarrow> None
      | x # s0 \<Rightarrow> (case s0 of [] \<Rightarrow> None
          | y # t \<Rightarrow> if x = a \<and> y = b then Some (g, Some y, t) else None))"
  by (cases s; cases "tl s") (auto simp: lits_def)

lemma sub_pair_id:
  "\<not> adjacent (\<lambda>x y. x = a \<and> y = b) s \<Longrightarrow> sub_from (lits [a, b]) repl p s = s"
proof (induction s arbitrary: p)
  case Nil
  show ?case by (simp add: sub_from_None_Nil rmatch_lits2)
next
  case (Cons x s)
  have "rmatch (lits [a, b]) no_groups p (x # s) = None"
    using Cons.prems by (cases s) (auto simp: rmatch_lits2)
  moreover have "\<not> adjacent (\<lambda>x y. x = a \<and> y = b) s"
    using Cons.prems by (cases s) auto
  ultimately show ?case
    using Cons.IH by (simp add: sub_skip)
qed

lemma adjacent_mono: "adjacent Q s \<Longrightarrow> (\<And>x y. Q x y \<Longrightarrow> R x y) \<Longrightarrow> adjacent R s"
  by (induction Q s rule: adjacent.induct) auto

lemma sub_lit_id:
  "is_sign a \<Longrightarrow> is_sign b \<Longrightarrow> \<not> sign_pair s \<Longrightarrow> sub_lit [a, b] rep s = s"
proof -
  assume a: "is_sign a" and b: "is_sign b" and n: "\<not> sign_pair s"
  have "\<not> adjacent (\<lambda>x y. x = a \<and> y = b) s"
  proof
    assume "adjacent (\<lambda>x y. x = a \<and> y = b) s"
    then have "adjacent (\<lambda>x y. is_sign x \<and> is_sign y) s"
      by (rule adjacent_mono) (simp add: a b)
    then show False
      using n by (simp add: sign_pair_def)
  qed
  then show ?thesis
    unfolding sub_lit_def re_sub_def by (rule sub_pair_id)
qed

lemma norm_signs_id: "\<not> sign_pair s \<Longrightarrow> norm_signs s = s"
  by (simp add: norm_signs_def sub_lit_id is_sign_def)

lemma sign_pair_append:
  "sign_pair (u @ v) = (sign_pair u \<or> sign_pair v \<or> (u \<noteq> [] \<and> v \<noteq> [] \<and> is_sign (last u) \<and> is_sign (hd v)))"
  by (simp add: sign_pair_def adjacent_append)

lemma sign_pair_Cons:
  "sign_pair (x # s) = (sign_pair s \<or> (s \<noteq> [] \<and> is_sign x \<and> is_sign (hd s)))"
  by (cases s) (auto simp: sign_pair_def)

lemma sign_pair_Nil [simp]: "\<not> sign_pair []"
  by (simp add: sign_pair_def)

lemma qref_not_sign: "is_qref c \<Longrightarrow> \<not> is_sign c"
  by (auto simp: is_qref_def is_sign_def is_word_def is_digit_def)

lemma qref_no_sign_pair: "list_all is_qref t \<Longrightarrow> \<not> sign_pair t"
proof (induction t)
  case Nil
  show ?case by simp
next
  case (Cons x t)
  then show ?case by (auto simp: sign_pair_Cons qref_not_sign)
qed


subsection \<open>Texts in which the patterns are not found\<close>

lemma p_head: "x \<noteq> CHR ''p'' \<Longrightarrow> rmatch p_pattern g q (x # s) = None"
  by (simp add: p_pattern_match split: list.split)

lemma p_head2: "y \<noteq> CHR ''('' \<Longrightarrow> rmatch p_pattern g q (x # y # s) = None"
  by (simp add: p_pattern_match)

lemma p_Nil: "rmatch p_pattern g q [] = None"
  by (simp add: p_pattern_match)

lemma p_single: "rmatch p_pattern g q [x] = None"
  by (simp add: p_pattern_match)

lemma cp_head: "x \<noteq> CHR ''c'' \<Longrightarrow> rmatch cp_pattern g q (x # s) = None"
  by (simp add: cp_pattern_match split: list.split)

lemma cp_Nil: "rmatch cp_pattern g q [] = None"
  by (simp add: cp_pattern_match)

lemma cp_head3: "z \<noteq> CHR ''('' \<Longrightarrow> rmatch cp_pattern g q (x # y # z # s) = None"
  by (simp add: cp_pattern_match)

lemma cp_head2: "y \<noteq> CHR ''p'' \<Longrightarrow> rmatch cp_pattern g q (x # y # s) = None"
  by (simp add: cp_pattern_match split: list.split)

lemma cp_single: "rmatch cp_pattern g q [x] = None"
  by (simp add: cp_pattern_match)

lemma cp_double: "rmatch cp_pattern g q [x, y] = None"
  by (simp add: cp_pattern_match)

text \<open>No opening parenthesis after a p: neither pattern is found.\<close>

definition p_paren :: "string \<Rightarrow> bool" where
  "p_paren s = adjacent (\<lambda>x y. x = CHR ''p'' \<and> y = CHR ''('') s"

lemma no_p_paren_search:
  "\<not> p_paren s \<Longrightarrow> search_from p_pattern q s = None \<and> search_from cp_pattern q s = None"
proof (induction s arbitrary: q)
  case Nil
  show ?case by (simp add: search_from_None_Nil p_Nil cp_Nil)
next
  case (Cons x s)
  have rest: "\<not> p_paren s"
    using Cons.prems by (cases s) (auto simp: p_paren_def)
  have p: "rmatch p_pattern no_groups q (x # s) = None"
  proof (cases s)
    case Nil
    then show ?thesis by (simp add: p_single)
  next
    case (Cons y t)
    then show ?thesis
      using Cons.prems by (cases "x = CHR ''p''") (auto simp: p_paren_def p_head p_head2)
  qed
  have c: "rmatch cp_pattern no_groups q (x # s) = None"
  proof (cases s)
    case Nil
    then show ?thesis by (simp add: cp_single)
  next
    case s: (Cons y t)
    show ?thesis
    proof (cases t)
      case Nil
      then show ?thesis using s by (simp add: cp_double)
    next
      case (Cons z u)
      then show ?thesis
        using s Cons.prems by (cases "y = CHR ''p''") (auto simp: p_paren_def cp_head2 cp_head3)
    qed
  qed
  show ?case
    using Cons.IH [OF rest] by (simp add: search_skip p c)
qed

lemma no_p_paren_native:
  "\<not> p_paren s \<Longrightarrow> p_to_native (cp_to_native s) = s"
  by (simp add: p_to_native_def cp_to_native_def re_search_def no_p_paren_search)


section \<open>Sequential substitution\<close>

definition swap_defs :: gate_defs where
  "swap_defs = [''swap2'' \<mapsto> \<lparr>params = [], qubits = [''a'', ''b''], body = [''cx a,b;'']\<rparr>]"

text \<open>
  Claim C10. The symbols of a body line are replaced one after the other, parameters first,
  then qubits in the order of the map, so a later replacement rewrites text that an earlier
  one put in. The gate \<open>swap2\<close> with formal qubits \<open>a,b\<close> and body \<open>cx a,b;\<close>, called as
  \<open>swap2 b,a;\<close>, expands to \<open>cx a,a;\<close>: the first step gives \<open>cx b,b;\<close>, the second
  replaces both \<open>b\<close>, and the two formal symbols end on the same actual instead of the
  exchanged \<open>cx b,a;\<close>.
\<close>

theorem sequential_substitution:
  "subst_map [(''a'', ''b'')] ''cx a,b;'' = Inr ''cx b,b;'' \<and>
   subst_map [(''a'', ''b''), (''b'', ''a'')] ''cx a,b;'' = Inr ''cx a,a;'' \<and>
   expand_once swap_defs [''swap2 b,a;''] = Inr ([''cx a,a;''], True)"
  by code_simp

section \<open>Lowering the phase gate\<close>

lemma tw_all: "list_all P xs \<Longrightarrow> \<not> P y \<Longrightarrow> takeWhile P (xs @ y # ys) = xs"
  by (induction xs) auto

lemma dw_all: "list_all P xs \<Longrightarrow> \<not> P y \<Longrightarrow> dropWhile P (xs @ y # ys) = y # ys"
  by (induction xs) auto

lemma tw_other: "list_all P xs \<Longrightarrow> (\<And>x. P x \<Longrightarrow> \<not> Q x) \<Longrightarrow> \<not> Q y \<Longrightarrow> takeWhile Q (xs @ y # ys) = []"
  by (cases xs) auto

lemma dw_other: "list_all P xs \<Longrightarrow> (\<And>x. P x \<Longrightarrow> \<not> Q x) \<Longrightarrow> \<not> Q y \<Longrightarrow> dropWhile Q (xs @ y # ys) = xs @ y # ys"
  by (cases xs) auto

lemma quiet_p_qref:
  assumes "list_all is_qref t" and "x \<noteq> CHR ''(''"
  shows "quiet p_pattern t (x # w)"
  unfolding quiet_def
proof (intro allI impI)
  fix p u1 u2
  assume t: "t = u1 @ u2" and n: "u2 \<noteq> []"
  then obtain a u3 where u2: "u2 = a # u3"
    by (cases u2) auto
  have q: "list_all is_qref u3"
    using assms(1) t u2 by simp
  show "rmatch p_pattern no_groups p (u2 @ x # w) = None"
  proof (cases u3)
    case Nil
    then show ?thesis using u2 assms(2) by (simp add: p_head2)
  next
    case (Cons b u4)
    then have "b \<noteq> CHR ''(''"
      using q by auto
    then show ?thesis using u2 Cons by (simp add: p_head2)
  qed
qed

lemma quiet_cp_qref:
  assumes "list_all is_qref t" and "\<not> is_qref x" and "x \<noteq> CHR ''(''"
  shows "quiet cp_pattern t (x # w)"
  unfolding quiet_def
proof (intro allI impI)
  fix p u1 u2
  assume t: "t = u1 @ u2" and n: "u2 \<noteq> []"
  then obtain a u3 where u2: "u2 = a # u3"
    by (cases u2) auto
  have q: "list_all is_qref u3"
    using assms(1) t u2 by simp
  have px: "x \<noteq> CHR ''p''"
    using assms(2) by (auto simp: is_qref_def is_word_def)
  show "rmatch cp_pattern no_groups p (u2 @ x # w) = None"
  proof (cases u3)
    case Nil
    then show ?thesis using u2 px by (simp add: cp_head2)
  next
    case u3: (Cons b u4)
    show ?thesis
    proof (cases u4)
      case Nil
      then show ?thesis using u2 u3 assms(3) by (simp add: cp_head3)
    next
      case (Cons c u5)
      then have "c \<noteq> CHR ''(''"
        using q u3 by auto
      then show ?thesis using u2 u3 Cons by (simp add: cp_head3)
    qed
  qed
qed

lemma quiet_p_theta:
  assumes "list_all not_rparen th" and "\<not> is_space x"
  shows "quiet p_pattern th (CHR '')'' # x # w)"
  unfolding quiet_def
proof (intro allI impI)
  fix p u1 u2
  assume t: "th = u1 @ u2" and n: "u2 \<noteq> []"
  then obtain a u3 where u2: "u2 = a # u3"
    by (cases u2) auto
  show "rmatch p_pattern no_groups p (u2 @ CHR '')'' # x # w) = None"
  proof (cases u3)
    case Nil
    then show ?thesis using u2 by (simp add: p_head2)
  next
    case (Cons b u4)
    have q: "list_all not_rparen u4"
      using assms(1) t u2 Cons by simp
    have np: "\<not> not_rparen CHR '')''"
      by (simp add: not_rparen_def)
    have "p_parse no_groups (u4 @ CHR '')'' # x # w) = None"
      using assms(2) by (simp add: p_parse_def tw_all [OF q np] dw_all [OF q np])
    then show ?thesis
      using u2 Cons by (simp add: p_pattern_match)
  qed
qed

lemma quiet_cp_theta:
  assumes "list_all not_rparen th" and "list_all is_qref t"
  shows "quiet cp_pattern th (CHR '')'' # CHR '' '' # t @ CHR '';'' # w)"
  unfolding quiet_def
proof (intro allI impI)
  fix p u1 u2
  assume t: "th = u1 @ u2" and n: "u2 \<noteq> []"
  then obtain a u3 where u2: "u2 = a # u3"
    by (cases u2) auto
  let ?rest = "CHR '')'' # CHR '' '' # t @ CHR '';'' # w"
  show "rmatch cp_pattern no_groups p (u2 @ ?rest) = None"
  proof (cases u3)
    case Nil
    then show ?thesis using u2 by (simp add: cp_head2)
  next
    case u3: (Cons b u4)
    show ?thesis
    proof (cases u4)
      case Nil
      then show ?thesis using u2 u3 by (simp add: cp_head3)
    next
      case (Cons c u5)
      have q: "list_all not_rparen u5"
        using assms(1) t u2 u3 Cons by simp
      have np: "\<not> not_rparen CHR '')''"
        by (simp add: not_rparen_def)
      have "cp_parse no_groups (u5 @ ?rest) = None"
        using assms(2)
        by (simp add: cp_parse_def tw_all [OF q np] dw_all [OF q np] tw_all dw_all
            dw_other [OF assms(2)] tw_other [OF assms(2)] qref_not_space)
      then show ?thesis
        using u2 u3 Cons by (simp add: cp_pattern_match)
    qed
  qed
qed

lemma rparen_list: "CHR '')'' \<notin> set th \<Longrightarrow> list_all not_rparen th"
  by (induction th) (auto simp: not_rparen_def)

lemma quiet_end: "quiet pat u v \<Longrightarrow> quiet pat v [] \<Longrightarrow> quiet pat (u @ v) []"
  using quiet_append [of pat u v "[]"] by simp

lemma p_line_cp_quiet:
  assumes th: "list_all not_rparen th" and t: "list_all is_qref t"
  shows "search_from cp_pattern q (''p('' @ th @ '') '' @ t @ '';'') = None"
proof -
  have 1: "quiet cp_pattern '';'' []"
    by (simp add: quiet_Cons cp_head)
  have 2: "quiet cp_pattern (t @ '';'') []"
    by (rule quiet_end [OF _ 1]) (simp add: quiet_cp_qref [OF t])
  have 3: "quiet cp_pattern ('') '' @ t @ '';'') []"
    by (rule quiet_end [OF _ 2]) (simp add: quiet_Cons cp_head)
  have 4: "quiet cp_pattern (th @ '') '' @ t @ '';'') []"
    by (rule quiet_end [OF _ 3]) (use quiet_cp_theta [OF th t, of "[]"] in simp)
  have "quiet cp_pattern (''p('' @ th @ '') '' @ t @ '';'') []"
    by (rule quiet_end [OF _ 4]) (simp add: quiet_Cons cp_head)
  then show ?thesis
    by (rule quiet_all_search) (rule cp_Nil)
qed

lemma p_line_match:
  assumes th: "list_all not_rparen th" "th \<noteq> []" and t: "list_all is_qref t" "t \<noteq> []"
  shows "rmatch p_pattern no_groups q (''p('' @ th @ '') '' @ t @ '';'') =
     Some (no_groups(1 := Some th, 2 := Some t), Some CHR '';'', [])"
proof -
  have np: "\<not> not_rparen CHR '')''"
    by (simp add: not_rparen_def)
  have "p_parse no_groups (th @ '') '' @ t @ '';'') =
     Some (no_groups(1 := Some th, 2 := Some t), Some CHR '';'', [])"
    using th(2) t(2)
    by (simp add: p_parse_def tw_all [OF th(1) np] dw_all [OF th(1) np]
        tw_other [OF t(1)] dw_other [OF t(1)] tw_all [OF t(1)] dw_all [OF t(1)] qref_not_space)
  then show ?thesis
    by (simp add: p_pattern_match)
qed

lemma p_line_native:
  assumes th: "list_all not_rparen th" "th \<noteq> []" and t: "list_all is_qref t" "t \<noteq> []"
  shows "p_to_native (cp_to_native (''p('' @ th @ '') '' @ t @ '';'')) = ''u(0,0,'' @ th @ '') '' @ t @ '';''"
proof -
  let ?L = "''p('' @ th @ '') '' @ t @ '';''"
  have c: "cp_to_native ?L = ?L"
    using p_line_cp_quiet [OF th(1) t(1)] by (simp add: cp_to_native_def re_search_def)
  have m: "rmatch p_pattern no_groups None ?L = Some (no_groups(1 := Some th, 2 := Some t), Some CHR '';'', [])"
    by (rule p_line_match [OF th t])
  have s: "re_search p_pattern ?L \<noteq> None"
    using search_hit [OF m] by (simp add: re_search_def)
  have "sub_from p_pattern p_sub None ?L = p_sub (no_groups(1 := Some th, 2 := Some t))"
    by (rule sub_whole [OF m]) (simp_all add: p_Nil)
  then have "re_sub p_pattern p_sub ?L = ''u(0,0,'' @ th @ '') '' @ t @ '';''"
    by (simp add: re_sub_def p_sub_def grp_def)
  then show ?thesis
    using s c by (simp add: p_to_native_def)
qed

lemma sign_chars [simp]:
  "\<not> is_sign CHR ''u''" "\<not> is_sign CHR ''(''" "\<not> is_sign CHR '')''" "\<not> is_sign CHR '',''"
  "\<not> is_sign CHR ''0''" "\<not> is_sign CHR '' ''" "\<not> is_sign CHR '';''" "\<not> is_sign CHR ''/''"
  "\<not> is_sign CHR ''2''" "\<not> is_sign CHR ''c''" "\<not> is_sign CHR ''x''" "\<not> is_sign nl"
  "is_sign CHR ''-''" "is_sign CHR ''+''"
  by (simp_all add: is_sign_def nl_def)

lemma u_line_signs:
  assumes "list_all is_qref t"
  shows "sign_pair (''u(0,0,'' @ th @ '') '' @ t @ '';'') = sign_pair th"
  using qref_no_sign_pair [OF assms]
  by (simp add: sign_pair_append sign_pair_Cons)


text \<open>
  Claim C6, as the code has it. For a text \<open>theta\<close> that is not empty and has no closing
  parenthesis, and a qubit reference \<open>t\<close> made of word characters and brackets,
  \<open>convert_line\<close> turns \<open>p(theta) t;\<close> into \<open>u(0,0,theta) t;\<close> with the sign pairs
  collapsed; when \<open>theta\<close> has no two adjacent sign characters the result is exactly
  \<open>u(0,0,theta) t;\<close>.
\<close>

theorem p_lowering:
  assumes "th \<noteq> []" and "CHR '')'' \<notin> set th" and "t \<noteq> []" and "list_all is_qref t"
  shows "convert_line (''p('' @ th @ '') '' @ t @ '';'') = norm_signs (''u(0,0,'' @ th @ '') '' @ t @ '';'') \<and>
    (\<not> sign_pair th \<longrightarrow> convert_line (''p('' @ th @ '') '' @ t @ '';'') = ''u(0,0,'' @ th @ '') '' @ t @ '';'')"
proof -
  have th: "list_all not_rparen th"
    using assms(2) by (rule rparen_list)
  have n: "p_to_native (cp_to_native (''p('' @ th @ '') '' @ t @ '';'')) = ''u(0,0,'' @ th @ '') '' @ t @ '';''"
    by (rule p_line_native [OF th assms(1) assms(4) assms(3)])
  show ?thesis
    using norm_signs_id [of "''u(0,0,'' @ th @ '') '' @ t @ '';''"]
    by (simp only: convert_line_alt n u_line_signs [OF assms(4)]) simp
qed

theorem p_lowering_witness:
  "''pi/2'' \<noteq> [] \<and> CHR '')'' \<notin> set ''pi/2'' \<and> ''q[1]'' \<noteq> [] \<and> list_all is_qref ''q[1]'' \<and>
   \<not> sign_pair ''pi/2'' \<and> convert_line ''p(pi/2) q[1];'' = ''u(0,0,pi/2) q[1];''"
proof -
  have a: "''pi/2'' \<noteq> []" and b: "CHR '')'' \<notin> set ''pi/2''" and c: "''q[1]'' \<noteq> []"
    by simp_all
  have d: "list_all is_qref ''q[1]''"
    by code_simp
  have e: "\<not> sign_pair ''pi/2''"
    by code_simp
  have "convert_line ''p(pi/2) q[1];'' = ''u(0,0,pi/2) q[1];''"
    using p_lowering [OF a b c d, THEN conjunct2, rule_format, OF e] by simp
  then show ?thesis
    using a b c d e by simp
qed

text \<open>
  The claim as the specification states it, for every text \<open>theta\<close>, fails where \<open>theta\<close>
  has two adjacent signs: the sign normalisation, the last step of the same function,
  rewrites them.
\<close>

theorem p_lowering_counterexample:
  "convert_line ''p(x--y) q;'' = ''u(0,0,x-y) q;'' \<and>
   convert_line ''p(x--y) q;'' \<noteq> ''u(0,0,x--y) q;''"
  by code_simp

section \<open>Lowering the controlled phase gate\<close>

definition cp_lines :: "string \<Rightarrow> string \<Rightarrow> string \<Rightarrow> string" where
  "cp_lines th c t = join_nl
     [''u(0,0,(('' @ th @ '')/2)) '' @ t @ '';'',
      ''cx '' @ c @ '','' @ t @ '';'',
      ''u(0,0,-(('' @ th @ '')/2)) '' @ t @ '';'',
      ''cx '' @ c @ '','' @ t @ '';'']"

lemma cp_line_match:
  assumes th: "list_all not_rparen th" "th \<noteq> []" and c: "list_all is_qref c" "c \<noteq> []"
    and t: "list_all is_qref t" "t \<noteq> []"
  shows "rmatch cp_pattern no_groups q (''cp('' @ th @ '') '' @ c @ '','' @ t @ '';'') =
     Some (no_groups(1 := Some th, 2 := Some c, 3 := Some t), Some CHR '';'', [])"
proof -
  have np: "\<not> not_rparen CHR '')''"
    by (simp add: not_rparen_def)
  have "cp_parse no_groups (th @ '') '' @ c @ '','' @ t @ '';'') =
     Some (no_groups(1 := Some th, 2 := Some c, 3 := Some t), Some CHR '';'', [])"
    using th(2) c(2) t(2)
    by (simp add: cp_parse_def tw_all [OF th(1) np] dw_all [OF th(1) np]
        tw_other [OF c(1)] dw_other [OF c(1)] tw_all [OF c(1)] dw_all [OF c(1)]
        tw_other [OF t(1)] dw_other [OF t(1)] tw_all [OF t(1)] dw_all [OF t(1)] qref_not_space)
  then show ?thesis
    by (simp add: cp_pattern_match)
qed

lemma nl_not_p [simp]: "nl \<noteq> CHR ''p''" "nl \<noteq> CHR ''(''"
  by (simp_all add: nl_def)

lemma cp_lines_p_quiet:
  assumes th: "list_all not_rparen th" and c: "list_all is_qref c" and t: "list_all is_qref t"
  shows "search_from p_pattern q (cp_lines th c t) = None"
proof -
  let ?A9 = "'';''"
  let ?A8 = "'',''"
  let ?A7 = "'';'' @ [nl] @ ''cx ''"
  let ?A6 = "'')/2)) ''"
  let ?A5 = "'';'' @ [nl] @ ''u(0,0,-((''"
  let ?A1 = "''u(0,0,((''"
  have 1: "quiet p_pattern ?A9 []"
    by (simp add: quiet_Cons p_head)
  have 2: "quiet p_pattern (t @ ?A9) []"
    by (rule quiet_end [OF _ 1]) (simp add: quiet_p_qref [OF t])
  have 3: "quiet p_pattern (?A8 @ t @ ?A9) []"
    by (rule quiet_end [OF _ 2]) (simp add: quiet_Cons p_head)
  have 4: "quiet p_pattern (c @ ?A8 @ t @ ?A9) []"
    by (rule quiet_end [OF _ 3]) (simp add: quiet_p_qref [OF c])
  have 5: "quiet p_pattern (?A7 @ c @ ?A8 @ t @ ?A9) []"
    by (rule quiet_end [OF _ 4]) (simp add: quiet_Cons p_head)
  have 6: "quiet p_pattern (t @ ?A7 @ c @ ?A8 @ t @ ?A9) []"
    by (rule quiet_end [OF _ 5]) (simp add: quiet_p_qref [OF t])
  have 7: "quiet p_pattern (?A6 @ t @ ?A7 @ c @ ?A8 @ t @ ?A9) []"
    by (rule quiet_end [OF _ 6]) (simp add: quiet_Cons p_head)
  have 8: "quiet p_pattern (th @ ?A6 @ t @ ?A7 @ c @ ?A8 @ t @ ?A9) []"
    by (rule quiet_end [OF _ 7]) (simp add: quiet_p_theta [OF th])
  have 9: "quiet p_pattern (?A5 @ th @ ?A6 @ t @ ?A7 @ c @ ?A8 @ t @ ?A9) []"
    by (rule quiet_end [OF _ 8]) (simp add: quiet_Cons p_head)
  have 10: "quiet p_pattern (t @ ?A5 @ th @ ?A6 @ t @ ?A7 @ c @ ?A8 @ t @ ?A9) []"
    by (rule quiet_end [OF _ 9]) (simp add: quiet_p_qref [OF t])
  have 11: "quiet p_pattern (?A8 @ t @ ?A5 @ th @ ?A6 @ t @ ?A7 @ c @ ?A8 @ t @ ?A9) []"
    by (rule quiet_end [OF _ 10]) (simp add: quiet_Cons p_head)
  have 12: "quiet p_pattern (c @ ?A8 @ t @ ?A5 @ th @ ?A6 @ t @ ?A7 @ c @ ?A8 @ t @ ?A9) []"
    by (rule quiet_end [OF _ 11]) (simp add: quiet_p_qref [OF c])
  have 13: "quiet p_pattern (?A7 @ c @ ?A8 @ t @ ?A5 @ th @ ?A6 @ t @ ?A7 @ c @ ?A8 @ t @ ?A9) []"
    by (rule quiet_end [OF _ 12]) (simp add: quiet_Cons p_head)
  have 14: "quiet p_pattern (t @ ?A7 @ c @ ?A8 @ t @ ?A5 @ th @ ?A6 @ t @ ?A7 @ c @ ?A8 @ t @ ?A9) []"
    by (rule quiet_end [OF _ 13]) (simp add: quiet_p_qref [OF t])
  have 15: "quiet p_pattern (?A6 @ t @ ?A7 @ c @ ?A8 @ t @ ?A5 @ th @ ?A6 @ t @ ?A7 @ c @ ?A8 @ t @ ?A9) []"
    by (rule quiet_end [OF _ 14]) (simp add: quiet_Cons p_head)
  have 16: "quiet p_pattern (th @ ?A6 @ t @ ?A7 @ c @ ?A8 @ t @ ?A5 @ th @ ?A6 @ t @ ?A7 @ c @ ?A8 @ t @ ?A9) []"
    by (rule quiet_end [OF _ 15]) (simp add: quiet_p_theta [OF th])
  have 17: "quiet p_pattern (?A1 @ th @ ?A6 @ t @ ?A7 @ c @ ?A8 @ t @ ?A5 @ th @ ?A6 @ t @ ?A7 @ c @ ?A8 @ t @ ?A9) []"
    by (rule quiet_end [OF _ 16]) (simp add: quiet_Cons p_head)
  have "cp_lines th c t = ?A1 @ th @ ?A6 @ t @ ?A7 @ c @ ?A8 @ t @ ?A5 @ th @ ?A6 @ t @ ?A7 @ c @ ?A8 @ t @ ?A9"
    by (simp add: cp_lines_def)
  then have "quiet p_pattern (cp_lines th c t) []"
    using 17 by simp
  then show ?thesis
    by (rule quiet_all_search) (rule p_Nil)
qed

lemma cp_line_native:
  assumes th: "list_all not_rparen th" "th \<noteq> []" and c: "list_all is_qref c" "c \<noteq> []"
    and t: "list_all is_qref t" "t \<noteq> []"
  shows "p_to_native (cp_to_native (''cp('' @ th @ '') '' @ c @ '','' @ t @ '';'')) = cp_lines th c t"
proof -
  let ?L = "''cp('' @ th @ '') '' @ c @ '','' @ t @ '';''"
  let ?g = "no_groups(1 := Some th, 2 := Some c, 3 := Some t)"
  have m: "rmatch cp_pattern no_groups None ?L = Some (?g, Some CHR '';'', [])"
    by (rule cp_line_match [OF th c t])
  have s: "re_search cp_pattern ?L \<noteq> None"
    using search_hit [OF m] by (simp add: re_search_def)
  have "sub_from cp_pattern cp_sub None ?L = cp_sub ?g"
    by (rule sub_whole [OF m]) (simp_all add: cp_Nil)
  then have r: "re_sub cp_pattern cp_sub ?L = cp_lines th c t"
    by (simp add: re_sub_def cp_sub_def cp_lines_def grp_def Let_def)
  have "cp_to_native ?L = re_sub cp_pattern cp_sub ?L"
    unfolding cp_to_native_def using s by (rule if_not_P)
  then have 1: "cp_to_native ?L = cp_lines th c t"
    using r by (rule trans)
  have "re_search p_pattern (cp_lines th c t) = None"
    using cp_lines_p_quiet [OF th(1) c(1) t(1)] by (simp add: re_search_def)
  then have 2: "p_to_native (cp_lines th c t) = cp_lines th c t"
    by (simp add: p_to_native_def)
  show ?thesis
    unfolding 1 by (rule 2)
qed

lemma cp_lines_signs:
  assumes "list_all is_qref c" and "list_all is_qref t"
  shows "sign_pair (cp_lines th c t) = sign_pair th"
  using qref_no_sign_pair [OF assms(1)] qref_no_sign_pair [OF assms(2)]
  by (simp add: cp_lines_def sign_pair_append sign_pair_Cons)


text \<open>
  Claim C1, as the code has it. For a text \<open>theta\<close> that is not empty and has no closing
  parenthesis and qubit references \<open>c\<close> and \<open>t\<close> made of word characters and brackets,
  \<open>convert_line\<close> turns \<open>cp(theta) c,t;\<close> into one text of four statements separated by
  line feeds, \<open>u(0,0,((theta)/2)) t;\<close>, \<open>cx c,t;\<close>, \<open>u(0,0,-((theta)/2)) t;\<close>, \<open>cx c,t;\<close>,
  with the sign pairs collapsed; when \<open>theta\<close> has no two adjacent sign characters it is
  copied as it stands into both half angles.
\<close>

theorem cp_lowering:
  assumes "th \<noteq> []" and "CHR '')'' \<notin> set th"
    and "c \<noteq> []" and "list_all is_qref c" and "t \<noteq> []" and "list_all is_qref t"
  shows "convert_line (''cp('' @ th @ '') '' @ c @ '','' @ t @ '';'') = norm_signs (cp_lines th c t) \<and>
    (\<not> sign_pair th \<longrightarrow>
       convert_line (''cp('' @ th @ '') '' @ c @ '','' @ t @ '';'') = cp_lines th c t)"
proof -
  have th: "list_all not_rparen th"
    using assms(2) by (rule rparen_list)
  have n: "p_to_native (cp_to_native (''cp('' @ th @ '') '' @ c @ '','' @ t @ '';'')) = cp_lines th c t"
    by (rule cp_line_native [OF th assms(1) assms(4) assms(3) assms(6) assms(5)])
  show ?thesis
    using norm_signs_id [of "cp_lines th c t"]
    by (simp only: convert_line_alt n cp_lines_signs [OF assms(4) assms(6)]) simp
qed

theorem cp_lowering_witness:
  "''pi/4'' \<noteq> [] \<and> CHR '')'' \<notin> set ''pi/4'' \<and> ''q[0]'' \<noteq> [] \<and> list_all is_qref ''q[0]'' \<and>
   ''q[1]'' \<noteq> [] \<and> list_all is_qref ''q[1]'' \<and> \<not> sign_pair ''pi/4'' \<and>
   convert_line ''cp(pi/4) q[0],q[1];'' =
     join_nl [''u(0,0,((pi/4)/2)) q[1];'', ''cx q[0],q[1];'', ''u(0,0,-((pi/4)/2)) q[1];'', ''cx q[0],q[1];'']"
proof -
  have a: "''pi/4'' \<noteq> []" and b: "CHR '')'' \<notin> set ''pi/4''" and c: "''q[0]'' \<noteq> []"
    and e: "''q[1]'' \<noteq> []"
    by simp_all
  have d: "list_all is_qref ''q[0]''" and f: "list_all is_qref ''q[1]''"
    by code_simp+
  have g: "\<not> sign_pair ''pi/4''"
    by code_simp
  have "convert_line ''cp(pi/4) q[0],q[1];'' = cp_lines ''pi/4'' ''q[0]'' ''q[1]''"
    using cp_lowering [OF a b c d e f, THEN conjunct2, rule_format, OF g] by simp
  then show ?thesis
    using a b c d e f g by (simp add: cp_lines_def)
qed


text \<open>
  The half angle is written with two pairs of parentheses, \<open>((theta)/2)\<close>, not as the
  \<open>(theta)/2\<close> of the specification.
\<close>

theorem cp_lowering_counterexample:
  "convert_line ''cp(theta) a,b;'' =
     join_nl [''u(0,0,((theta)/2)) b;'', ''cx a,b;'', ''u(0,0,-((theta)/2)) b;'', ''cx a,b;''] \<and>
   convert_line ''cp(theta) a,b;'' \<noteq>
     join_nl [''u(0,0,(theta)/2) b;'', ''cx a,b;'', ''u(0,0,-(theta)/2) b;'', ''cx a,b;'']"
  by code_simp

section \<open>Native statements\<close>

lemma p_paren_Nil [simp]: "\<not> p_paren []"
  by (simp add: p_paren_def)

lemma p_paren_Cons:
  "p_paren (x # s) = (p_paren s \<or> (s \<noteq> [] \<and> x = CHR ''p'' \<and> hd s = CHR ''(''))"
  by (cases s) (auto simp: p_paren_def)

lemma p_paren_append:
  "p_paren (u @ v) = (p_paren u \<or> p_paren v \<or> (u \<noteq> [] \<and> v \<noteq> [] \<and> last u = CHR ''p'' \<and> hd v = CHR ''(''))"
  by (simp add: p_paren_def adjacent_append)

lemma qref_no_p_paren: "list_all is_qref t \<Longrightarrow> \<not> p_paren t"
proof (induction t)
  case Nil
  show ?case by simp
next
  case (Cons x t)
  then show ?case by (cases t) (auto simp: p_paren_Cons)
qed

lemma unchanged: "\<not> p_paren s \<Longrightarrow> \<not> sign_pair s \<Longrightarrow> convert_line s = s"
  by (simp add: convert_line_alt no_p_paren_native norm_signs_id)


section \<open>Substitution at identifier boundaries\<close>

text \<open>A formal symbol that is an identifier: word characters only, at least one.\<close>

definition is_ident :: "string \<Rightarrow> bool" where
  "is_ident f = (f \<noteq> [] \<and> list_all is_word f)"

text \<open>The tokens of a line: the maximal runs of word characters, and every other character
  by itself.\<close>

function tokens :: "string \<Rightarrow> string list" where
  "tokens [] = []"
| "tokens (c # cs) =
     (if is_word c then (c # takeWhile is_word cs) # tokens (dropWhile is_word cs)
      else [c] # tokens cs)"
  by pat_completeness auto
termination
  by (relation "measure length") (auto simp: less_Suc_eq_le length_dropWhile_le)

definition word_pattern :: "string \<Rightarrow> atom list" where
  "word_pattern f = [WordB] @ lits f @ [WordB]"

definition in_word :: "char option \<Rightarrow> bool" where
  "in_word p = (case p of None \<Rightarrow> False | Some c \<Rightarrow> is_word c)"

lemma rmatch_lits_None:
  "take (length f) s \<noteq> f \<Longrightarrow> rmatch (lits f @ rs) g p s = None"
proof (induction f arbitrary: s p)
  case Nil
  then show ?case by simp
next
  case (Cons x f)
  then show ?case by (cases s) (auto simp: lits_def)
qed

lemma word_pattern_match:
  assumes "f \<noteq> []"
  shows "rmatch (word_pattern f) g p s =
    (if at_boundary p s \<and> take (length f) s = f \<and> at_boundary (Some (last f)) (drop (length f) s)
     then Some (g, Some (last f), drop (length f) s) else None)"
proof (cases "take (length f) s = f")
  case True
  then have s: "s = f @ drop (length f) s"
    by (metis append_take_drop_id)
  have "rmatch (lits f @ [WordB]) g p (f @ drop (length f) s) =
      rmatch [WordB] g (lastc p f) (drop (length f) s)"
    by (rule rmatch_lits)
  then have "rmatch (lits f @ [WordB]) g p s = rmatch [WordB] g (Some (last f)) (drop (length f) s)"
    using s assms by (simp add: lastc_def)
  then show ?thesis
    using True by (simp add: word_pattern_def)
next
  case False
  then show ?thesis
    by (simp add: word_pattern_def rmatch_lits_None)
qed

lemma ident_hd_word: "is_ident f \<Longrightarrow> is_word (hd f)"
  by (cases f) (auto simp: is_ident_def)

lemma ident_last_word: "is_ident f \<Longrightarrow> is_word (last f)"
  by (auto simp: is_ident_def list_all_iff)

text \<open>Inside a word nothing matches: the rest of the word is copied.\<close>

lemma sub_inside_word:
  assumes "is_ident f"
  shows "is_word c \<Longrightarrow> sub_from (word_pattern f) repl (Some c) s =
    takeWhile is_word s @ sub_from (word_pattern f) repl (lastc (Some c) (takeWhile is_word s)) (dropWhile is_word s)"
proof (induction s arbitrary: c)
  case Nil
  show ?case by simp
next
  case (Cons x s)
  show ?case
  proof (cases "is_word x")
    case True
    have f: "f \<noteq> []"
      using assms by (simp add: is_ident_def)
    have "\<not> at_boundary (Some c) (x # s)"
      using Cons.prems True by (simp add: at_boundary_def)
    then have "rmatch (word_pattern f) no_groups (Some c) (x # s) = None"
      by (simp add: word_pattern_match [OF f])
    then have "sub_from (word_pattern f) repl (Some c) (x # s) = x # sub_from (word_pattern f) repl (Some x) s"
      by (rule sub_skip)
    then show ?thesis
      using True Cons.IH [OF True] by simp
  next
    case False
    then show ?thesis by simp
  qed
qed

definition replace_token :: "string \<Rightarrow> string \<Rightarrow> string \<Rightarrow> string" where
  "replace_token f a t = (if t = f then a else t)"

lemma replace_token_same: "replace_token f a f = a"
  by (simp add: replace_token_def)

lemma replace_token_other: "t \<noteq> f \<Longrightarrow> replace_token f a t = t"
  by (simp add: replace_token_def)

lemma boundary_after: "is_word l \<Longrightarrow> r = [] \<or> \<not> is_word (hd r) \<Longrightarrow> at_boundary (Some l) r"
  by (cases r) (auto simp: at_boundary_def)

lemma no_boundary_inside: "is_word l \<Longrightarrow> r \<noteq> [] \<and> is_word (hd r) \<Longrightarrow> \<not> at_boundary (Some l) r"
  by (cases r) (auto simp: at_boundary_def)

lemma sub_tokens:
  assumes f: "is_ident f"
  shows "\<not> (in_word p \<and> s \<noteq> [] \<and> is_word (hd s)) \<Longrightarrow>
    sub_from (word_pattern f) (\<lambda>m. a) p s = concat (map (replace_token f a) (tokens s))"
proof (induction s arbitrary: p rule: tokens.induct)
  case 1
  have n: "f \<noteq> []"
    using f by (simp add: is_ident_def)
  have "rmatch (word_pattern f) no_groups p [] = None"
    using n by (simp add: word_pattern_match [OF n])
  then show ?case
    by (simp add: sub_from_None_Nil)
next
  case (2 c cs)
  have n: "f \<noteq> []"
    using f by (simp add: is_ident_def)
  let ?pat = "word_pattern f" and ?r = "\<lambda>m::groups. a"
  show ?case
  proof (cases "is_word c")
    case False
    have "take (length f) (c # cs) \<noteq> f"
      using ident_hd_word [OF f] False n by (cases f) auto
    then have "rmatch ?pat no_groups p (c # cs) = None"
      by (simp add: word_pattern_match [OF n])
    then have "sub_from ?pat ?r p (c # cs) = c # sub_from ?pat ?r (Some c) cs"
      by (rule sub_skip)
    moreover have "sub_from ?pat ?r (Some c) cs = concat (map (replace_token f a) (tokens cs))"
      using False by (intro "2.IH"(2)) (simp_all add: in_word_def)
    moreover have "[c] \<noteq> f"
      using ident_hd_word [OF f] False by auto
    ultimately show ?thesis
      using False by (simp add: replace_token_other)
  next
    case True
    let ?w = "c # takeWhile is_word cs" and ?rest = "dropWhile is_word cs"
    have s: "c # cs = ?w @ ?rest"
      by simp
    have np: "\<not> in_word p"
      using "2.prems" True by simp
    have b: "at_boundary p (c # cs)"
      using np True by (simp add: at_boundary_def in_word_def split: option.splits)
    have rest: "\<not> (in_word q \<and> ?rest \<noteq> [] \<and> is_word (hd ?rest))" for q
      using hd_dropWhile [of is_word cs] by auto
    have ih: "sub_from ?pat ?r q ?rest = concat (map (replace_token f a) (tokens ?rest))" for q
      using True rest by (intro "2.IH"(1)) simp_all
    show ?thesis
    proof (cases "?w = f")
      case w: True
      have lw: "is_word (last f)"
        by (rule ident_last_word [OF f])
      have t: "take (length f) (c # cs) = f" and d: "drop (length f) (c # cs) = ?rest"
        using s w by (metis append_eq_conv_conj)+
      have "?rest = [] \<or> \<not> is_word (hd ?rest)"
        using hd_dropWhile [of is_word cs] by blast
      then have "at_boundary (Some (last f)) ?rest"
        by (rule boundary_after [OF lw])
      then have m: "rmatch ?pat no_groups p (c # cs) = Some (no_groups, Some (last f), ?rest)"
        using b t d by (simp add: word_pattern_match [OF n])
      have "length ?rest < length (c # cs)"
        by (simp add: less_Suc_eq_le length_dropWhile_le)
      then have "sub_from ?pat ?r p (c # cs) = a @ sub_from ?pat ?r (Some (last f)) ?rest"
        using m by (simp add: sub_from.simps [of ?pat ?r p "c # cs"])
      then show ?thesis
        using True w ih by (simp add: replace_token_same)
    next
      case w: False
      have "rmatch ?pat no_groups p (c # cs) = None"
      proof (cases "take (length f) (c # cs) = f")
        case False
        then show ?thesis by (simp add: word_pattern_match [OF n])
      next
        case t: True
        then have e: "c # cs = f @ drop (length f) (c # cs)"
          by (metis append_take_drop_id)
        have all: "list_all is_word f"
          using f by (simp add: is_ident_def)
        have "takeWhile is_word (c # cs) = f @ takeWhile is_word (drop (length f) (c # cs))"
          using all by (subst e) (simp add: takeWhile_append2 list_all_iff)
        then have "takeWhile is_word (drop (length f) (c # cs)) \<noteq> []"
          using w True by auto
        then have "drop (length f) (c # cs) \<noteq> [] \<and> is_word (hd (drop (length f) (c # cs)))"
          by (cases "drop (length f) (c # cs)") (auto split: if_splits)
        then have "\<not> at_boundary (Some (last f)) (drop (length f) (c # cs))"
          by (rule no_boundary_inside [OF ident_last_word [OF f]])
        then show ?thesis by (simp add: word_pattern_match [OF n])
      qed
      then have "sub_from ?pat ?r p (c # cs) = c # sub_from ?pat ?r (Some c) cs"
        by (rule sub_skip)
      also have "sub_from ?pat ?r (Some c) cs =
          takeWhile is_word cs @ sub_from ?pat ?r (lastc (Some c) (takeWhile is_word cs)) ?rest"
        by (rule sub_inside_word [OF f True])
      finally show ?thesis
        using True w ih by (simp add: replace_token_other)
    qed
  qed
qed

lemma concat_tokens: "concat (tokens s) = s"
  by (induction s rule: tokens.induct) auto

definition backslash :: char where
  "backslash = CHR 0x5C"


text \<open>
  Claim C4. The substitution of a formal symbol is safe at identifier boundaries. For a
  formal symbol \<open>f\<close> that is an identifier and an actual text \<open>a\<close> without backslash,
  \<open>sub_word f a\<close> replaces exactly the tokens of the line that are equal to \<open>f\<close> and
  leaves every other token, such as the longer identifier \<open>q2\<close> for the symbol \<open>q\<close>,
  as it is; the tokens make up the line.
\<close>

theorem substitution_boundary_safe:
  assumes "is_ident f" and "backslash \<notin> set a"
  shows "concat (tokens line) = line \<and>
    sub_word f a line = Inr (concat (map (replace_token f a) (tokens line)))"
proof -
  have "sub_from (word_pattern f) (\<lambda>m. a) None line = concat (map (replace_token f a) (tokens line))"
    by (rule sub_tokens [OF assms(1)]) (simp add: in_word_def)
  then show ?thesis
    using assms(2) by (simp add: sub_word_def re_sub_def word_pattern_def concat_tokens backslash_def)
qed

theorem substitution_boundary_safe_witness:
  "is_ident ''q'' \<and> backslash \<notin> set ''x[0]'' \<and>
   tokens ''cx q,q2;'' = [''cx'', '' '', ''q'', '','', ''q2'', '';''] \<and>
   sub_word ''q'' ''x[0]'' ''cx q,q2;'' = Inr ''cx x[0],q2;''"
proof -
  have a: "is_ident ''q''"
    by code_simp
  have b: "backslash \<notin> set ''x[0]''"
    by (simp add: backslash_def)
  have c: "tokens ''cx q,q2;'' = [''cx'', '' '', ''q'', '','', ''q2'', '';'']"
    by code_simp
  have "sub_word ''q'' ''x[0]'' ''cx q,q2;'' = Inr (concat (map (replace_token ''q'' ''x[0]'') (tokens ''cx q,q2;'')))"
    using substitution_boundary_safe [OF a b] by simp
  then show ?thesis
    using a b c by (simp add: replace_token_def)
qed

section \<open>Lines without a gate to lower\<close>



















section \<open>Native statements are left as they are\<close>

text \<open>
  The parentheses of a text are balanced: read from depth \<open>d\<close>, no closing parenthesis
  comes without its opening one and the text ends at depth 0.
\<close>

fun bal :: "nat \<Rightarrow> string \<Rightarrow> bool" where
  "bal d [] = (d = 0)"
| "bal d (c # s) =
     (if c = CHR ''('' then bal (Suc d) s
      else if c = CHR '')'' then d \<noteq> 0 \<and> bal (d - 1) s
      else bal d s)"

definition balanced :: "string \<Rightarrow> bool" where
  "balanced s = bal 0 s"

lemma bal_append: "bal e a \<Longrightarrow> bal (d + e) (a @ b) = bal d b"
proof (induction a arbitrary: e)
  case Nil
  then show ?case by simp
next
  case (Cons c a)
  show ?case
  proof (cases "c = CHR ''(''")
    case True
    with Cons.prems have "bal (Suc e) a" by simp
    from Cons.IH [OF this] True show ?thesis by simp
  next
    case False
    show ?thesis
    proof (cases "c = CHR '')''")
      case True
      with Cons.prems have e: "e \<noteq> 0" and "bal (e - 1) a" by simp_all
      from Cons.IH [OF this(2)] e True show ?thesis
        by (simp add: Nat.add_diff_assoc)
    next
      case c: False
      with False Cons.prems have "bal e a" by simp
      from Cons.IH [OF this] False c show ?thesis by simp
    qed
  qed
qed

lemma balanced_append: "balanced a \<Longrightarrow> balanced b \<Longrightarrow> balanced (a @ b)"
  using bal_append [of 0 a 0 b] by (simp add: balanced_def)

lemma balanced_comma: "balanced a \<Longrightarrow> balanced b \<Longrightarrow> balanced (a @ CHR '','' # b)"
  using balanced_append [of a "CHR '','' # b"] by (simp add: balanced_def)

lemma bal_tail: "bal d (c # s) \<Longrightarrow> \<exists>e. bal e s"
  by (auto split: if_splits)

lemma bal_open: "bal (Suc d) s \<Longrightarrow> CHR '')'' \<in> set s"
proof (induction s arbitrary: d)
  case Nil
  then show ?case by simp
next
  case (Cons c s)
  then show ?case by (cases "c = CHR '')''") (auto split: if_splits)
qed

lemma dw_stop:
  assumes "\<not> P c"
  shows "\<exists>b. dropWhile P (b0 @ c # w) = b @ c # w \<and> set b \<subseteq> set b0"
proof (induction b0)
  case Nil
  show ?case using assms by simp
next
  case (Cons x b0)
  then obtain b where b: "dropWhile P (b0 @ c # w) = b @ c # w" "set b \<subseteq> set b0"
    by blast
  show ?case
  proof (cases "P x")
    case True
    with b show ?thesis by auto
  next
    case False
    then have "dropWhile P ((x # b0) @ c # w) = (x # b0) @ c # w \<and> set (x # b0) \<subseteq> set (x # b0)"
      by simp
    then show ?thesis by blast
  qed
qed

lemma dw3_stop:
  assumes "\<not> P c" "\<not> Q c" "\<not> R c"
  shows "\<exists>b. dropWhile P (dropWhile Q (dropWhile R (b0 @ c # w))) = b @ c # w \<and> set b \<subseteq> set b0"
proof -
  from dw_stop [of R c b0 w, OF assms(3)]
  obtain b1 where b1: "dropWhile R (b0 @ c # w) = b1 @ c # w" "set b1 \<subseteq> set b0" by blast
  from dw_stop [of Q c b1 w, OF assms(2)]
  obtain b2 where b2: "dropWhile Q (b1 @ c # w) = b2 @ c # w" "set b2 \<subseteq> set b1" by blast
  from dw_stop [of P c b2 w, OF assms(1)]
  obtain b3 where b3: "dropWhile P (b2 @ c # w) = b3 @ c # w" "set b3 \<subseteq> set b2" by blast
  from b1 b2 b3 show ?thesis by auto
qed

lemma rparen_classes: "\<not> is_space CHR '')''" "\<not> is_qref CHR '')''"
  by simp_all

text \<open>A text that is closed before the next closing parenthesis and has no semicolon does
  not go on as a statement to lower.\<close>

lemma closed_tail:
  assumes "CHR '';'' \<notin> set b0"
  shows "\<exists>b. dropWhile is_space (dropWhile is_qref (dropWhile is_space (b0 @ CHR '')'' # w))) = b @ CHR '')'' # w \<and>
     CHR '';'' \<notin> set b"
  using dw3_stop [of is_space "CHR '')''" is_qref is_space b0 w] assms rparen_classes by blast

lemma p_parse_closed:
  assumes "CHR '')'' \<in> set B" and "CHR '';'' \<notin> set B"
  shows "p_parse g (B @ CHR '')'' # w) = None"
proof -
  from split_list_first [OF assms(1)] obtain th B' where B: "B = th @ CHR '')'' # B'"
    and th: "CHR '')'' \<notin> set th" by blast
  have q: "list_all not_rparen th"
    using th by (rule rparen_list)
  have np: "\<not> not_rparen CHR '')''"
    by (simp add: not_rparen_def)
  let ?s3 = "B' @ CHR '')'' # w"
  have tw: "takeWhile not_rparen (B @ CHR '')'' # w) = th"
    using tw_all [OF q np, of "?s3"] by (simp add: B)
  have dw: "dropWhile not_rparen (B @ CHR '')'' # w) = CHR '')'' # ?s3"
    using dw_all [OF q np, of "?s3"] by (simp add: B)
  from assms(2) B have "CHR '';'' \<notin> set B'" by simp
  from closed_tail [OF this, of w] obtain b
    where b: "dropWhile is_space (dropWhile is_qref (dropWhile is_space ?s3)) = b @ CHR '')'' # w"
      and nb: "CHR '';'' \<notin> set b" by blast
  have h: "\<And>d s6. b @ CHR '')'' # w = d # s6 \<Longrightarrow> d \<noteq> CHR '';''"
    using nb by (cases b) auto
  show ?thesis
    unfolding p_parse_def tw dw list.case b
    using h by (auto split: list.split)
qed

lemma cp_parse_closed:
  assumes "CHR '')'' \<in> set B" and "CHR '';'' \<notin> set B"
  shows "cp_parse g (B @ CHR '')'' # w) = None"
proof -
  from split_list_first [OF assms(1)] obtain th B' where B: "B = th @ CHR '')'' # B'"
    and th: "CHR '')'' \<notin> set th" by blast
  have q: "list_all not_rparen th"
    using th by (rule rparen_list)
  have np: "\<not> not_rparen CHR '')''"
    by (simp add: not_rparen_def)
  let ?s3 = "B' @ CHR '')'' # w"
  have tw: "takeWhile not_rparen (B @ CHR '')'' # w) = th"
    using tw_all [OF q np, of "?s3"] by (simp add: B)
  have dw: "dropWhile not_rparen (B @ CHR '')'' # w) = CHR '')'' # ?s3"
    using dw_all [OF q np, of "?s3"] by (simp add: B)
  from assms(2) B have "CHR '';'' \<notin> set B'" by simp
  from closed_tail [OF this, of w] obtain b
    where b: "dropWhile is_space (dropWhile is_qref (dropWhile is_space ?s3)) = b @ CHR '')'' # w"
      and nb: "CHR '';'' \<notin> set b" by blast
  have h: "e \<noteq> CHR '';''"
    if "b @ CHR '')'' # w = CHR '','' # s6"
      and "dropWhile is_space (dropWhile is_qref (dropWhile is_space s6)) = e # s9" for s6 e s9
  proof -
    from that(1) obtain b' where b': "b = CHR '','' # b'" "s6 = b' @ CHR '')'' # w"
      by (cases b) auto
    with nb have "CHR '';'' \<notin> set b'" by simp
    from closed_tail [OF this, of w] obtain b2
      where b2: "dropWhile is_space (dropWhile is_qref (dropWhile is_space s6)) = b2 @ CHR '')'' # w"
        and nb2: "CHR '';'' \<notin> set b2" unfolding b'(2) by blast
    show ?thesis
      using that(2) nb2 unfolding b2 by (cases b2) auto
  qed
  show ?thesis
    unfolding cp_parse_def tw dw list.case b
    using h by (auto split: list.split)
qed

lemma quiet_p_balanced:
  assumes "bal d A" and "CHR '';'' \<notin> set A"
  shows "quiet p_pattern A (CHR '')'' # w)"
  using assms
proof (induction A arbitrary: d)
  case Nil
  show ?case by simp
next
  case (Cons x A)
  from bal_tail [OF Cons.prems(1)] obtain e where e: "bal e A" by blast
  have r: "quiet p_pattern A (CHR '')'' # w)"
    using Cons.IH [OF e] Cons.prems(2) by simp
  have m: "rmatch p_pattern no_groups p (x # A @ CHR '')'' # w) = None" for p
  proof (cases A)
    case Nil
    then show ?thesis by (simp add: p_head2)
  next
    case A: (Cons y B)
    show ?thesis
    proof (cases "x = CHR ''p'' \<and> y = CHR ''(''")
      case True
      with Cons.prems(1) A have "bal (Suc d) B" by simp
      then have "CHR '')'' \<in> set B" by (rule bal_open)
      moreover have "CHR '';'' \<notin> set B" using Cons.prems(2) A by simp
      ultimately have "p_parse no_groups (B @ CHR '')'' # w) = None"
        by (rule p_parse_closed)
      then show ?thesis using A True by (simp add: p_pattern_match)
    next
      case False
      then show ?thesis using A by (auto simp: p_head p_head2)
    qed
  qed
  show ?case using r m by (simp add: quiet_Cons)
qed

lemma quiet_cp_balanced:
  assumes "bal d A" and "CHR '';'' \<notin> set A"
  shows "quiet cp_pattern A (CHR '')'' # w)"
  using assms
proof (induction A arbitrary: d)
  case Nil
  show ?case by simp
next
  case (Cons x A)
  from bal_tail [OF Cons.prems(1)] obtain e where e: "bal e A" by blast
  have r: "quiet cp_pattern A (CHR '')'' # w)"
    using Cons.IH [OF e] Cons.prems(2) by simp
  have m: "rmatch cp_pattern no_groups p (x # A @ CHR '')'' # w) = None" for p
  proof (cases A)
    case Nil
    then show ?thesis by (simp add: cp_head2)
  next
    case A: (Cons y A')
    show ?thesis
    proof (cases A')
      case Nil
      then show ?thesis using A by (simp add: cp_head3)
    next
      case A': (Cons z B)
      show ?thesis
      proof (cases "x = CHR ''c'' \<and> y = CHR ''p'' \<and> z = CHR ''(''")
        case True
        with Cons.prems(1) A A' have "bal (Suc d) B" by simp
        then have "CHR '')'' \<in> set B" by (rule bal_open)
        moreover have "CHR '';'' \<notin> set B" using Cons.prems(2) A A' by simp
        ultimately have "cp_parse no_groups (B @ CHR '')'' # w) = None"
          by (rule cp_parse_closed)
        then show ?thesis using A A' True by (simp add: cp_pattern_match)
      next
        case False
        then show ?thesis using A A' by (auto simp: cp_head cp_head2 cp_head3)
      qed
    qed
  qed
  show ?case using r m by (simp add: quiet_Cons)
qed

lemma u_line_quiet:
  assumes "balanced A" and "CHR '';'' \<notin> set A" and q: "list_all is_qref q"
  shows "search_from p_pattern r (''u('' @ A @ '') '' @ q @ '';'') = None"
    and "search_from cp_pattern r (''u('' @ A @ '') '' @ q @ '';'') = None"
proof -
  have b: "bal 0 A" using assms(1) by (simp add: balanced_def)
  have p1: "quiet p_pattern '';'' []"
    by (simp add: quiet_Cons p_head)
  have p2: "quiet p_pattern (q @ '';'') []"
    by (rule quiet_end [OF _ p1]) (simp add: quiet_p_qref [OF q])
  have p3: "quiet p_pattern ('') '' @ q @ '';'') []"
    by (rule quiet_end [OF _ p2]) (simp add: quiet_Cons p_head)
  have p4: "quiet p_pattern (A @ '') '' @ q @ '';'') []"
    by (rule quiet_end [OF _ p3]) (use quiet_p_balanced [OF b assms(2)] in simp)
  have "quiet p_pattern (''u('' @ A @ '') '' @ q @ '';'') []"
    by (rule quiet_end [OF _ p4]) (simp add: quiet_Cons p_head)
  then show "search_from p_pattern r (''u('' @ A @ '') '' @ q @ '';'') = None"
    by (rule quiet_all_search) (rule p_Nil)
  have c1: "quiet cp_pattern '';'' []"
    by (simp add: quiet_Cons cp_head)
  have c2: "quiet cp_pattern (q @ '';'') []"
    by (rule quiet_end [OF _ c1]) (simp add: quiet_cp_qref [OF q])
  have c3: "quiet cp_pattern ('') '' @ q @ '';'') []"
    by (rule quiet_end [OF _ c2]) (simp add: quiet_Cons cp_head)
  have c4: "quiet cp_pattern (A @ '') '' @ q @ '';'') []"
    by (rule quiet_end [OF _ c3]) (use quiet_cp_balanced [OF b assms(2)] in simp)
  have "quiet cp_pattern (''u('' @ A @ '') '' @ q @ '';'') []"
    by (rule quiet_end [OF _ c4]) (simp add: quiet_Cons cp_head)
  then show "search_from cp_pattern r (''u('' @ A @ '') '' @ q @ '';'') = None"
    by (rule quiet_all_search) (rule cp_Nil)
qed

lemma u_line_unchanged:
  assumes "balanced A" and "CHR '';'' \<notin> set A" and "\<not> sign_pair A" and "list_all is_qref q"
  shows "convert_line (''u('' @ A @ '') '' @ q @ '';'') = ''u('' @ A @ '') '' @ q @ '';''"
proof -
  let ?U = "''u('' @ A @ '') '' @ q @ '';''"
  have c: "cp_to_native ?U = ?U"
    using u_line_quiet(2) [OF assms(1,2,4)] by (simp add: cp_to_native_def re_search_def)
  have p: "p_to_native ?U = ?U"
    using u_line_quiet(1) [OF assms(1,2,4)] by (simp add: p_to_native_def re_search_def)
  have "\<not> sign_pair ?U"
    using assms(3) qref_no_sign_pair [OF assms(4)]
    by (simp add: sign_pair_append sign_pair_Cons)
  then have n: "norm_signs ?U = ?U"
    by (rule norm_signs_id)
  show ?thesis
    by (simp only: convert_line_alt c p n)
qed

text \<open>
  Claim C9, as the code has it. A native statement \<open>u(a1,a2,a3) q;\<close> or \<open>cx c,t;\<close> is
  returned unchanged by \<open>convert_line\<close> when its qubit references are made of word
  characters and brackets and its angle texts have balanced parentheses, no semicolon and
  no two adjacent sign characters.
\<close>

theorem native_unchanged:
  assumes "balanced a1" "balanced a2" "balanced a3"
    and "CHR '';'' \<notin> set a1" "CHR '';'' \<notin> set a2" "CHR '';'' \<notin> set a3"
    and "\<not> sign_pair a1" "\<not> sign_pair a2" "\<not> sign_pair a3"
    and "list_all is_qref q" and "list_all is_qref c" and "list_all is_qref t"
  shows "convert_line (''u('' @ a1 @ '','' @ a2 @ '','' @ a3 @ '') '' @ q @ '';'') =
      ''u('' @ a1 @ '','' @ a2 @ '','' @ a3 @ '') '' @ q @ '';'' \<and>
    convert_line (''cx '' @ c @ '','' @ t @ '';'') = ''cx '' @ c @ '','' @ t @ '';''"
proof
  let ?A = "a1 @ '','' @ a2 @ '','' @ a3"
  let ?X = "''cx '' @ c @ '','' @ t @ '';''"
  have b: "balanced ?A"
    using balanced_comma [OF assms(1) balanced_comma [OF assms(2,3)]] by simp
  have s: "CHR '';'' \<notin> set ?A"
    using assms(4-6) by simp
  have n: "\<not> sign_pair ?A"
    using assms(7-9) by (simp add: sign_pair_append sign_pair_Cons)
  show "convert_line (''u('' @ a1 @ '','' @ a2 @ '','' @ a3 @ '') '' @ q @ '';'') =
      ''u('' @ a1 @ '','' @ a2 @ '','' @ a3 @ '') '' @ q @ '';''"
    using u_line_unchanged [OF b s n assms(10)] by simp
  have "\<not> p_paren ?X"
    using qref_no_p_paren [OF assms(11)] qref_no_p_paren [OF assms(12)]
    by (simp add: p_paren_append p_paren_Cons)
  moreover have "\<not> sign_pair ?X"
    using qref_no_sign_pair [OF assms(11)] qref_no_sign_pair [OF assms(12)]
    by (simp add: sign_pair_append sign_pair_Cons)
  ultimately show "convert_line ?X = ?X"
    by (rule unchanged)
qed

theorem native_unchanged_witness:
  "balanced ''0'' \<and> balanced ''-((pi/4)/2)'' \<and> balanced ''exp(1)'' \<and>
   CHR '';'' \<notin> set ''0'' \<and> CHR '';'' \<notin> set ''-((pi/4)/2)'' \<and> CHR '';'' \<notin> set ''exp(1)'' \<and>
   \<not> sign_pair ''0'' \<and> \<not> sign_pair ''-((pi/4)/2)'' \<and> \<not> sign_pair ''exp(1)'' \<and>
   list_all is_qref ''q[1]'' \<and> list_all is_qref ''q[0]'' \<and>
   convert_line ''u(0,-((pi/4)/2),exp(1)) q[1];'' = ''u(0,-((pi/4)/2),exp(1)) q[1];'' \<and>
   convert_line ''cx q[0],q[1];'' = ''cx q[0],q[1];''"
proof -
  have a: "balanced ''0''" and b: "balanced ''-((pi/4)/2)''" and c: "balanced ''exp(1)''"
    by code_simp+
  have d: "CHR '';'' \<notin> set ''0''" and e: "CHR '';'' \<notin> set ''-((pi/4)/2)''"
    and f: "CHR '';'' \<notin> set ''exp(1)''"
    by simp_all
  have g: "\<not> sign_pair ''0''" and h: "\<not> sign_pair ''-((pi/4)/2)''" and i: "\<not> sign_pair ''exp(1)''"
    by code_simp+
  have j: "list_all is_qref ''q[1]''" and k: "list_all is_qref ''q[0]''"
    by code_simp+
  show ?thesis
    using native_unchanged [OF a b c d e f g h i j k j] a b c d e f g h i j k by simp
qed

text \<open>
  Without the condition on the signs the claim fails: the sign normalisation is applied to
  native statements as to any other line.
\<close>

theorem native_unchanged_counterexample:
  "convert_line ''u(0,0,1--2) q;'' = ''u(0,0,1-2) q;'' \<and>
   convert_line ''u(0,0,1--2) q;'' \<noteq> ''u(0,0,1--2) q;''"
  by code_simp

section \<open>Calls with too few or too many arguments\<close>

text \<open>The actual parameters and the actual qubits of a matched call.\<close>

definition actual_p :: "groups \<Rightarrow> string list" where
  "actual_p m =
     (let arg_str = (case m 2 of None \<Rightarrow> [] | Some t \<Rightarrow> t)
      in if arg_str \<noteq> [] then map strip (split_comma (inner arg_str)) else [])"

definition actual_q :: "groups \<Rightarrow> string list" where
  "actual_q m = map strip (split_comma (grp m 3))"























section \<open>The text that is written\<close>





section \<open>The loop of the passes\<close>



















end
